theory Spec2Isabelle
  imports Main
begin

section \<open>Python string primitives\<close>

text \<open>
  Python strings are modelled as Isabelle strings (lists of characters). The character
  classes below are those of Python's \<^verbatim>\<open>str\<close> methods and of the \<^verbatim>\<open>re\<close> module on the ASCII
  repertoire (code points below 128), where they are plain ranges of code points; the
  theorems about the name processor are stated for ASCII input.
\<close>

definition code :: "char \<Rightarrow> nat" where
  "code c = of_char c"

definition is_ascii :: "char \<Rightarrow> bool" where
  "is_ascii c = (code c < 128)"

definition ascii :: "string \<Rightarrow> bool" where
  "ascii s = list_all is_ascii s"

text \<open>
  \<^verbatim>\<open>str.isspace\<close>, \<^verbatim>\<open>str.strip()\<close> and the pattern \<^verbatim>\<open>\s\<close>: tab, line feed, vertical
  tab, form feed, carriage return, the four separators 28 to 31, and the space.
\<close>

definition is_space :: "char \<Rightarrow> bool" where
  "is_space c = ((9 \<le> code c \<and> code c \<le> 13) \<or> (28 \<le> code c \<and> code c \<le> 32))"

definition is_upper :: "char \<Rightarrow> bool" where
  "is_upper c = (65 \<le> code c \<and> code c \<le> 90)"

definition is_lower :: "char \<Rightarrow> bool" where
  "is_lower c = (97 \<le> code c \<and> code c \<le> 122)"

text \<open>The pattern \<^verbatim>\<open>[a-zA-Z]\<close>; on ASCII also the cased characters of \<^verbatim>\<open>str.title\<close>.\<close>

definition is_alpha :: "char \<Rightarrow> bool" where
  "is_alpha c = (is_upper c \<or> is_lower c)"

definition is_digit :: "char \<Rightarrow> bool" where
  "is_digit c = (48 \<le> code c \<and> code c \<le> 57)"

text \<open>The pattern \<^verbatim>\<open>\w\<close>: alphanumeric or underscore.\<close>

definition is_word :: "char \<Rightarrow> bool" where
  "is_word c = (is_alpha c \<or> is_digit c \<or> c = CHR ''_'')"

text \<open>The pattern \<^verbatim>\<open>[^\w\s]\<close>.\<close>

definition is_punct :: "char \<Rightarrow> bool" where
  "is_punct c = (\<not> is_word c \<and> \<not> is_space c)"

definition to_lower :: "char \<Rightarrow> char" where
  "to_lower c = (if is_upper c then char_of (code c + 32) else c)"

definition to_upper :: "char \<Rightarrow> char" where
  "to_upper c = (if is_lower c then char_of (code c - 32) else c)"

text \<open>\<^verbatim>\<open>s.lower()\<close>\<close>

definition lower :: "string \<Rightarrow> string" where
  "lower s = map to_lower s"

text \<open>\<^verbatim>\<open>s.strip()\<close>\<close>

definition strip :: "string \<Rightarrow> string" where
  "strip s = rev (dropWhile is_space (rev (dropWhile is_space s)))"

text \<open>\<^verbatim>\<open>s.isdigit()\<close>: every character is a digit and there is at least one.\<close>

definition isdigit :: "string \<Rightarrow> bool" where
  "isdigit s = (s \<noteq> [] \<and> list_all is_digit s)"

text \<open>
  \<^verbatim>\<open>s.title()\<close>: a character is lowercased when the character before it is cased, and
  uppercased otherwise; the flag is the casedness of the original character.
\<close>

fun title_from :: "bool \<Rightarrow> string \<Rightarrow> string" where
  "title_from previous_is_cased [] = []"
| "title_from previous_is_cased (c # cs) =
     (if previous_is_cased then to_lower c else to_upper c) # title_from (is_alpha c) cs"

definition title :: "string \<Rightarrow> string" where
  "title s = title_from False s"

text \<open>
  \<^verbatim>\<open>re.sub(r'\s+', ' ', s)\<close>: every maximal run of whitespace becomes one space.
\<close>

function sub_spaces :: "string \<Rightarrow> string" where
  "sub_spaces [] = []"
| "sub_spaces (c # cs) =
     (if is_space c then CHR '' '' # sub_spaces (dropWhile is_space cs)
      else c # sub_spaces cs)"
  by pat_completeness auto
termination
  by (relation "measure length") (auto simp: length_dropWhile_le less_Suc_eq_le)

text \<open>
  \<^verbatim>\<open>re.sub(r'^[^\w\s]+|[^\w\s]+$', '', s)\<close>. The first alternative removes the maximal run
  of punctuation at the start. The second removes the maximal run of punctuation that
  reaches the end of the string; \<^verbatim>\<open>$\<close> also matches just before a line feed that ends the
  string, so a run that reaches such a line feed is removed as well.
\<close>

definition rstrip_punct :: "string \<Rightarrow> string" where
  "rstrip_punct s = rev (dropWhile is_punct (rev s))"

definition sub_outer_punct :: "string \<Rightarrow> string" where
  "sub_outer_punct s =
     (let s1 = dropWhile is_punct s
      in if s1 \<noteq> [] \<and> last s1 = CHR 0x0A then rstrip_punct (butlast s1) @ [CHR 0x0A]
         else rstrip_punct s1)"

text \<open>\<^verbatim>\<open>re.match(r'^[^\w\s]+$', s)\<close>, with the same reading of \<^verbatim>\<open>$\<close>.\<close>

definition match_only_punct :: "string \<Rightarrow> bool" where
  "match_only_punct s =
     ((s \<noteq> [] \<and> list_all is_punct s) \<or>
      (s \<noteq> [] \<and> last s = CHR 0x0A \<and> butlast s \<noteq> [] \<and> list_all is_punct (butlast s)))"

text \<open>\<^verbatim>\<open>re.search(r'[a-zA-Z]', s)\<close>\<close>

definition search_letter :: "string \<Rightarrow> bool" where
  "search_letter s = list_ex is_alpha s"

section \<open>The name processor (utils/name\_processor.py)\<close>

text \<open>
  \<^verbatim>\<open>NameProcessor._clean_name\<close> and \<^verbatim>\<open>NameProcessor._validate_name\<close>; an Isabelle name
  cannot start with an underscore, so the two are \<open>clean_name\<close> and \<open>validate_name\<close>.
\<close>

definition clean_name :: "string \<Rightarrow> string" where
  "clean_name name =
     (if name = [] then []
      else title (sub_outer_punct (sub_spaces (strip name))))"

definition validate_name :: "string \<Rightarrow> bool" where
  "validate_name name =
     (if name = [] \<or> length (strip name) < 1 then False
      else if isdigit name then False
      else if match_only_punct name then False
      else if length name < 2 then False
      else if \<not> search_letter name then False
      else True)"

text \<open>
  A Python \<^verbatim>\<open>dict\<close> whose iteration order matters is an association list in insertion
  order: assigning to a key that is present replaces its value in place, assigning to a
  new key appends it.
\<close>

fun dict_get :: "('k \<times> 'v) list \<Rightarrow> 'k \<Rightarrow> 'v option" where
  "dict_get [] k = None"
| "dict_get ((k', v) # d) k = (if k' = k then Some v else dict_get d k)"

fun dict_set :: "('k \<times> 'v) list \<Rightarrow> 'k \<Rightarrow> 'v \<Rightarrow> ('k \<times> 'v) list" where
  "dict_set [] k v = [(k, v)]"
| "dict_set ((k', v') # d) k v = (if k' = k then (k', v) # d else (k', v') # dict_set d k v)"

text \<open>\<^verbatim>\<open>collections.Counter(xs)\<close>: one more for each element, in order.\<close>

fun Counter_from :: "('k \<times> nat) list \<Rightarrow> 'k list \<Rightarrow> ('k \<times> nat) list" where
  "Counter_from counts [] = counts"
| "Counter_from counts (x # xs) =
     Counter_from (dict_set counts x (case dict_get counts x of None \<Rightarrow> 1 | Some n \<Rightarrow> n + 1)) xs"

definition Counter :: "'k list \<Rightarrow> ('k \<times> nat) list" where
  "Counter xs = Counter_from [] xs"

text \<open>The entry of \<^verbatim>\<open>duplicate_groups\<close> for one name: keys \<^verbatim>\<open>name\<close>, \<^verbatim>\<open>count\<close>, \<^verbatim>\<open>indices\<close>.\<close>

record name_group =
  group_name :: string
  group_count :: nat
  group_indices :: "nat list"

text \<open>The dictionary \<^verbatim>\<open>process_names\<close> returns, one field for each key.\<close>

record process_result =
  unique_names :: "string list"
  duplicate_groups :: "(string \<times> name_group) list"
  invalid_names :: "string list"
  total_names :: nat
  unique_count :: nat
  duplicate_count :: nat
  invalid_count :: nat
  all_cleaned_names :: "string list"

text \<open>
  The first loop of \<^verbatim>\<open>process_names\<close>: a name whose cleaned form validates is kept in
  its cleaned form, any other is reported as it was given.
\<close>

fun clean_loop :: "string list \<Rightarrow> string list \<Rightarrow> string list \<Rightarrow> string list \<times> string list" where
  "clean_loop [] cleaned_names invalid = (cleaned_names, invalid)"
| "clean_loop (name # names) cleaned_names invalid =
     (let cleaned = clean_name name
      in if validate_name cleaned then clean_loop names (cleaned_names @ [cleaned]) invalid
         else clean_loop names cleaned_names (invalid @ [name]))"

text \<open>\<^verbatim>\<open>[i for i, n in enumerate(cleaned_names) if n == name]\<close>\<close>

definition indices_of :: "string list \<Rightarrow> string \<Rightarrow> nat list" where
  "indices_of cleaned_names name =
     filter (\<lambda>i. cleaned_names ! i = name) [0..<length cleaned_names]"

text \<open>The second loop, over \<^verbatim>\<open>name_counts.items()\<close>.\<close>

fun group_loop :: "string list \<Rightarrow> (string \<times> nat) list \<Rightarrow> string list \<Rightarrow>
    (string \<times> name_group) list \<Rightarrow> string list \<times> (string \<times> name_group) list" where
  "group_loop cleaned_names [] unique groups = (unique, groups)"
| "group_loop cleaned_names ((name, cnt) # items) unique groups =
     (if cnt = 1 then group_loop cleaned_names items (unique @ [name]) groups
      else
        let groups1 = (if dict_get groups name = None
                       then dict_set groups name
                              \<lparr>group_name = name, group_count = cnt, group_indices = []\<rparr>
                       else groups);
            indices = indices_of cleaned_names name;
            groups2 = (case dict_get groups1 name of
                         None \<Rightarrow> groups1
                       | Some grp \<Rightarrow> dict_set groups1 name (grp\<lparr>group_indices := indices\<rparr>))
        in group_loop cleaned_names items unique groups2)"

definition process_names :: "string list \<Rightarrow> process_result" where
  "process_names names =
     (let (cleaned_names, invalid) = clean_loop names [] [];
          name_counts = Counter cleaned_names;
          (unique, groups) = group_loop cleaned_names name_counts [] []
      in \<lparr>unique_names = unique,
          duplicate_groups = groups,
          invalid_names = invalid,
          total_names = length cleaned_names,
          unique_count = length unique,
          duplicate_count = length groups,
          invalid_count = length invalid,
          all_cleaned_names = cleaned_names\<rparr>)"

section \<open>The hash generator (utils/hash\_generator.py)\<close>

text \<open>
  What the generator takes from outside the repository's sources, as parameters:
  the two configuration constants \<^verbatim>\<open>SALT_ENABLED\<close> and \<^verbatim>\<open>DEFAULT_SALT\<close> that
  hash\_generator.py imports (config.py as given does not define them); for each of
  the three \<^verbatim>\<open>hashlib\<close> constructors the function from the bytes hashed to the
  \<^verbatim>\<open>hexdigest()\<close> of the result (on ASCII text the UTF-8 encoding is the text itself);
  and \<^verbatim>\<open>uuid4 k\<close>, the string form of the \<open>k\<close>-th random UUID the process draws. A
  function that draws a UUID takes the number of UUIDs drawn so far and returns the new
  number.
\<close>

record env =
  SALT_ENABLED :: bool
  DEFAULT_SALT :: string
  md5 :: "string \<Rightarrow> string"
  sha256 :: "string \<Rightarrow> string"
  sha1 :: "string \<Rightarrow> string"
  uuid4 :: "nat \<Rightarrow> string"

text \<open>config.py\<close>

definition HASH_ALGORITHM :: string where
  "HASH_ALGORITHM = ''md5''"

record HashGenerator =
  algorithm :: string
  salt :: string
  hash_cache :: "string \<rightharpoonup> string"

text \<open>\<^verbatim>\<open>HashGenerator.__init__\<close>; the defaults are \<^verbatim>\<open>HASH_ALGORITHM\<close> and \<^verbatim>\<open>DEFAULT_SALT\<close>.\<close>

definition init :: "string \<Rightarrow> string \<Rightarrow> HashGenerator" where
  "init alg slt = \<lparr>algorithm = alg, salt = slt, hash_cache = Map.empty\<rparr>"

definition init_default :: "env \<Rightarrow> HashGenerator" where
  "init_default e = init HASH_ALGORITHM (DEFAULT_SALT e)"

text \<open>
  The string \<^verbatim>\<open>generate_hash\<close> hashes, and the digest it computes when the cache has
  no entry for the name; an algorithm other than the three named is MD5.
\<close>

definition hash_input :: "env \<Rightarrow> HashGenerator \<Rightarrow> string \<Rightarrow> string" where
  "hash_input e g name =
     (let h = lower (strip name)
      in if SALT_ENABLED e \<and> salt g \<noteq> [] then salt g @ h else h)"

definition hexdigest :: "env \<Rightarrow> HashGenerator \<Rightarrow> string \<Rightarrow> string" where
  "hexdigest e g inp =
     (if algorithm g = ''md5'' then md5 e inp
      else if algorithm g = ''sha256'' then sha256 e inp
      else if algorithm g = ''sha1'' then sha1 e inp
      else md5 e inp)"

definition generate_hash :: "env \<Rightarrow> HashGenerator \<Rightarrow> string \<Rightarrow> string \<times> HashGenerator" where
  "generate_hash e g name =
     (case hash_cache g name of
        Some cached \<Rightarrow> (cached, g)
      | None \<Rightarrow>
          let hash_value = hexdigest e g (hash_input e g name)
          in (hash_value, g\<lparr>hash_cache := (hash_cache g)(name \<mapsto> hash_value)\<rparr>))"

fun generate_hashes_batch :: "env \<Rightarrow> HashGenerator \<Rightarrow> string list \<Rightarrow>
    (string \<rightharpoonup> string) \<Rightarrow> (string \<rightharpoonup> string) \<times> HashGenerator" where
  "generate_hashes_batch e g [] hashes = (hashes, g)"
| "generate_hashes_batch e g (name # names) hashes =
     (let (h, g1) = generate_hash e g name
      in generate_hashes_batch e g1 names (hashes(name \<mapsto> h)))"

text \<open>\<^verbatim>\<open>clear_cache\<close> and \<^verbatim>\<open>set_salt\<close>\<close>

definition clear_cache :: "HashGenerator \<Rightarrow> HashGenerator" where
  "clear_cache g = g\<lparr>hash_cache := Map.empty\<rparr>"

definition set_salt :: "HashGenerator \<Rightarrow> string \<Rightarrow> HashGenerator" where
  "set_salt g slt = clear_cache (g\<lparr>salt := slt\<rparr>)"

text \<open>Decimal digits of a number (\<^verbatim>\<open>str(n)\<close>), and the format \<^verbatim>\<open>{n:03d}\<close>.\<close>

definition digit_char :: "nat \<Rightarrow> char" where
  "digit_char d = char_of (48 + d)"

fun str_nat :: "nat \<Rightarrow> string" where
  "str_nat n = (if n < 10 then [digit_char n] else str_nat (n div 10) @ [digit_char (n mod 10)])"

declare str_nat.simps [simp del]

definition format_03d :: "nat \<Rightarrow> string" where
  "format_03d n = replicate (3 - length (str_nat n)) (CHR ''0'') @ str_nat n"

text \<open>
  The loop of \<^verbatim>\<open>generate_unique_hash\<close>, entered with \<^verbatim>\<open>counter = 1\<close>: it returns the hash
  of the first suffixed name that is not taken, and after the attempt with counter
  1000 a UUID without its dashes.
\<close>

function unique_loop :: "env \<Rightarrow> HashGenerator \<Rightarrow> nat \<Rightarrow> string \<Rightarrow> string set \<Rightarrow> nat \<Rightarrow>
    string \<times> HashGenerator \<times> nat" where
  "unique_loop e g rng name existing_hashes counter =
     (let modified_name = name @ ''_'' @ str_nat counter;
          r = generate_hash e g modified_name;
          new_hash = fst r;
          g1 = snd r
      in if new_hash \<notin> existing_hashes then (new_hash, g1, rng)
         else if counter + 1 > 1000
              then (filter (\<lambda>c. c \<noteq> CHR ''-'') (uuid4 e rng), g1, rng + 1)
              else unique_loop e g1 rng name existing_hashes (counter + 1))"
  by pat_completeness auto
termination
  by (relation "measure (\<lambda>(e, g, rng, name, existing_hashes, counter). 1001 - counter)") auto

declare unique_loop.simps [simp del]

definition generate_unique_hash :: "env \<Rightarrow> HashGenerator \<Rightarrow> nat \<Rightarrow> string \<Rightarrow> string set \<Rightarrow>
    string \<times> HashGenerator \<times> nat" where
  "generate_unique_hash e g rng name existing_hashes =
     (let r = generate_hash e g name;
          base_hash = fst r;
          g1 = snd r
      in if base_hash \<notin> existing_hashes then (base_hash, g1, rng)
         else unique_loop e g1 rng name existing_hashes 1)"

text \<open>
  \<^verbatim>\<open>generate_sequential_ids\<close> returns a dictionary keyed by name, so a repeated name keeps
  its first position in the dictionary and the identifier of its last occurrence.
\<close>

fun sequential_loop :: "string \<Rightarrow> string list \<Rightarrow> nat \<Rightarrow> (string \<times> string) list \<Rightarrow>
    (string \<times> string) list" where
  "sequential_loop prefix [] i ids = ids"
| "sequential_loop prefix (name # names) i ids =
     sequential_loop prefix names (i + 1) (dict_set ids name (prefix @ format_03d i))"

definition generate_sequential_ids :: "string list \<Rightarrow> string \<Rightarrow> (string \<times> string) list" where
  "generate_sequential_ids names prefix = sequential_loop prefix names 1 []"

text \<open>One record of the result: keys \<^verbatim>\<open>Name\<close> and \<^verbatim>\<open>ID\<close>.\<close>

record name_id =
  Name :: string
  ID :: string

text \<open>
  The loop of \<^verbatim>\<open>create_name_id_mapping\<close>, with its two local variables \<^verbatim>\<open>mappings\<close> and
  \<^verbatim>\<open>existing_ids\<close>; an identifier type other than the three named is treated as
  \<^verbatim>\<open>"hash"\<close>.
\<close>

fun mapping_loop :: "env \<Rightarrow> string \<Rightarrow> string list \<Rightarrow> name_id list \<Rightarrow> string set \<Rightarrow>
    HashGenerator \<Rightarrow> nat \<Rightarrow> name_id list \<times> HashGenerator \<times> nat" where
  "mapping_loop e id_type [] mappings existing_ids g rng = (mappings, g, rng)"
| "mapping_loop e id_type (name # names) mappings existing_ids g rng =
     (let r = (if id_type = ''hash'' then generate_unique_hash e g rng name existing_ids
               else if id_type = ''sequential''
                    then (''ID'' @ format_03d (length mappings + 1), g, rng)
               else if id_type = ''uuid'' then (uuid4 e rng, g, rng + 1)
               else generate_unique_hash e g rng name existing_ids);
          id_value = fst r
      in mapping_loop e id_type names (mappings @ [\<lparr>Name = name, ID = id_value\<rparr>])
           (insert id_value existing_ids) (fst (snd r)) (snd (snd r)))"

definition create_name_id_mapping :: "env \<Rightarrow> HashGenerator \<Rightarrow> nat \<Rightarrow> string list \<Rightarrow> string \<Rightarrow>
    name_id list \<times> HashGenerator \<times> nat" where
  "create_name_id_mapping e g rng names id_type = mapping_loop e id_type names [] {} g rng"

section \<open>Step 2 of the application (app.py)\<close>

text \<open>The options of the select box \<^verbatim>\<open>ID Generation Method\<close>.\<close>

datatype id_option = Hash | Sequential | Uuid

text \<open>
  The part of \<^verbatim>\<open>st.session_state\<close> that generation writes, and what the handler shows:
  \<^verbatim>\<open>st.error\<close> with its message, or \<^verbatim>\<open>st.success\<close> with the number of records in its
  message.
\<close>

record session_state =
  step :: nat
  name_id_mappings :: "name_id list"

datatype ui_message = st_error string | st_success nat

text \<open>
  \<^verbatim>\<open>final_names\<close>: the names of the editable list, stripped, without the empty ones.
\<close>

definition final_names_of :: "string list \<Rightarrow> string list" where
  "final_names_of editable_names = map strip (filter (\<lambda>n. strip n \<noteq> []) editable_names)"

text \<open>The generation loop; \<open>i\<close> is the index \<^verbatim>\<open>enumerate\<close> gives.\<close>

fun generate_ids_loop :: "env \<Rightarrow> id_option \<Rightarrow> string list \<Rightarrow> nat \<Rightarrow> name_id list \<Rightarrow>
    HashGenerator \<Rightarrow> nat \<Rightarrow> name_id list \<times> HashGenerator \<times> nat" where
  "generate_ids_loop e id_type [] i mappings g rng = (mappings, g, rng)"
| "generate_ids_loop e id_type (name # names) i mappings g rng =
     (let r = (case id_type of
                 Hash \<Rightarrow> (let h = generate_hash e g name in (fst h, snd h, rng))
               | Sequential \<Rightarrow> (''ID'' @ format_03d (i + 1), g, rng)
               | Uuid \<Rightarrow> (uuid4 e rng, g, rng + 1))
      in generate_ids_loop e id_type names (i + 1) (mappings @ [\<lparr>Name = name, ID = fst r\<rparr>])
           (fst (snd r)) (snd (snd r)))"

text \<open>
  The handler of the button \<^verbatim>\<open>Generate IDs\<close>: with no names it shows the error and
  returns; otherwise it sets the algorithm of the generator when the method is
  \<^verbatim>\<open>hash\<close>, runs the loop, stores the records and moves to step 3.
\<close>

definition step_2_generate_ids :: "env \<Rightarrow> HashGenerator \<Rightarrow> nat \<Rightarrow> id_option \<Rightarrow> string \<Rightarrow>
    string list \<Rightarrow> session_state \<Rightarrow> ui_message \<times> session_state \<times> HashGenerator \<times> nat" where
  "step_2_generate_ids e hash_generator rng id_type alg final_names st =
     (if final_names = [] then (st_error ''No names to process!'', st, hash_generator, rng)
      else
        let g = (if id_type = Hash then hash_generator\<lparr>algorithm := alg\<rparr> else hash_generator);
            r = generate_ids_loop e id_type final_names 0 [] g rng;
            mappings = fst r
        in (st_success (length mappings), st\<lparr>name_id_mappings := mappings, step := 3\<rparr>,
            fst (snd r), snd (snd r)))"

section \<open>A concrete environment\<close>

text \<open>
  Every theorem below holds for any environment. To run the model on concrete input an
  environment is needed, and this one is small enough to compute with: salting is
  enabled with an empty default salt, each digest is a tag for the algorithm followed by
  the bytes of the input in lowercase hexadecimal, and the \<open>k\<close>-th UUID ends in the decimal
  digits of \<open>k\<close>.
\<close>

definition hex_digit :: "nat \<Rightarrow> char" where
  "hex_digit d = (if d < 10 then char_of (48 + d) else char_of (87 + d))"

definition hex_of_char :: "char \<Rightarrow> string" where
  "hex_of_char c = [hex_digit (code c div 16), hex_digit (code c mod 16)]"

definition demo_digest :: "string \<Rightarrow> string \<Rightarrow> string" where
  "demo_digest tag inp = tag @ concat (map hex_of_char inp)"

definition demo_uuid4 :: "nat \<Rightarrow> string" where
  "demo_uuid4 k =
     ''00000000-0000-4000-8000-'' @ replicate (12 - length (str_nat k)) (CHR ''0'') @ str_nat k"

definition demo_env :: env where
  "demo_env =
     \<lparr>SALT_ENABLED = True, DEFAULT_SALT = [],
      md5 = demo_digest ''5'', sha256 = demo_digest ''256'', sha1 = demo_digest ''1'',
      uuid4 = demo_uuid4\<rparr>"

section \<open>The wording of the specification\<close>

text \<open>
  The definitions of this section follow the words of the specification, not the code;
  the code is compared with them below.

  Title casing as the specification states it: the first character of each
  space-separated token is uppercased and the rest of the token is lowercased.
\<close>

fun spec_title_from :: "bool \<Rightarrow> string \<Rightarrow> string" where
  "spec_title_from at_token_start [] = []"
| "spec_title_from at_token_start (c # cs) =
     (if c = CHR '' '' then c # spec_title_from True cs
      else (if at_token_start then to_upper c else to_lower c) # spec_title_from False cs)"

definition spec_title :: "string \<Rightarrow> string" where
  "spec_title s = spec_title_from True s"

text \<open>
  The rejection rule as the specification states it: the result is empty, shorter than
  two characters, entirely numeric, entirely non-word characters, or has no alphabetic
  character.
\<close>

definition spec_rejects :: "string \<Rightarrow> bool" where
  "spec_rejects s =
     (s = [] \<or> length s < 2 \<or> list_all is_digit s \<or> list_all (\<lambda>c. \<not> is_word c) s \<or>
      \<not> list_ex is_alpha s)"

text \<open>
  Title case with respect to runs of letters: a letter that follows a letter is not
  uppercase, and a letter that starts the string or follows any other character is not
  lowercase.
\<close>

fun titlecased_from :: "bool \<Rightarrow> string \<Rightarrow> bool" where
  "titlecased_from previous_is_cased [] = True"
| "titlecased_from previous_is_cased (c # cs) =
     ((if previous_is_cased then \<not> is_upper c else \<not> is_lower c) \<and>
      titlecased_from (is_alpha c) cs)"

definition titlecased :: "string \<Rightarrow> bool" where
  "titlecased s = titlecased_from False s"

text \<open>
  Every whitespace character of the string is a space, and no two of them are adjacent.
\<close>

fun single_spaced :: "string \<Rightarrow> bool" where
  "single_spaced [] = True"
| "single_spaced (c # cs) =
     ((if is_space c then c = CHR '' '' \<and> (cs = [] \<or> \<not> is_space (hd cs)) else True) \<and>
      single_spaced cs)"

text \<open>The value of a string of decimal digits.\<close>

definition digits_value :: "string \<Rightarrow> nat" where
  "digits_value s = foldl (\<lambda>a c. 10 * a + (code c - 48)) 0 s"

text \<open>The fallback token \<open>generate_unique_hash\<close> returns when it draws the \<open>k\<close>-th UUID.\<close>

definition fallback_token :: "env \<Rightarrow> nat \<Rightarrow> string" where
  "fallback_token e k = filter (\<lambda>c. c \<noteq> CHR ''-'') (uuid4 e k)"

text \<open>
  The hash \<open>generate_hash\<close> gives the name with the suffix \<^verbatim>\<open>_i\<close> on a generator \<open>g\<close>.
\<close>

definition suffixed_hash :: "env \<Rightarrow> HashGenerator \<Rightarrow> string \<Rightarrow> nat \<Rightarrow> string" where
  "suffixed_hash e g name i = fst (generate_hash e g (name @ ''_'' @ str_nat i))"

text \<open>Two generators give every name the same hash.\<close>

definition same_hashes :: "env \<Rightarrow> HashGenerator \<Rightarrow> HashGenerator \<Rightarrow> bool" where
  "same_hashes e g g' = (\<forall>n. fst (generate_hash e g' n) = fst (generate_hash e g n))"

text \<open>
  In a list of identifiers, one that repeats an earlier one is a fallback token.
\<close>

definition repeats_are_tokens :: "env \<Rightarrow> string list \<Rightarrow> bool" where
  "repeats_are_tokens e ids =
     (\<forall>j < length ids. ids ! j \<in> set (take j ids) \<longrightarrow> ids ! j \<in> range (fallback_token e))"

text \<open>
  The cache of a generator agrees with its algorithm and salt: every digest it holds is
  the one \<open>generate_hash\<close> would compute for that name now.
\<close>

definition cache_consistent :: "env \<Rightarrow> HashGenerator \<Rightarrow> bool" where
  "cache_consistent e g =
     (\<forall>n d. hash_cache g n = Some d \<longrightarrow> d = hexdigest e g (hash_input e g n))"

text \<open>A string of lowercase hexadecimal digits, and a library whose digests are such.\<close>

definition lower_hex :: "string \<Rightarrow> bool" where
  "lower_hex s = list_all (\<lambda>c. is_digit c \<or> (97 \<le> code c \<and> code c \<le> 102)) s"

definition hex_library :: "env \<Rightarrow> bool" where
  "hex_library e = (\<forall>x. lower_hex (md5 e x) \<and> lower_hex (sha256 e x) \<and> lower_hex (sha1 e x))"

section \<open>The cache of the hash generator\<close>

text \<open>
  C10. A name that the cache maps to a digest gets that digest from \<open>generate_hash\<close>
  whatever the algorithm field is set to afterwards, and the generator is left as it
  was: assigning the algorithm does not touch the cache. \<open>set_salt\<close> empties the
  cache, so after it the same name is hashed afresh, with the new salt.
\<close>

theorem cached_digest_survives_algorithm:
  "hash_cache g n = Some d \<Longrightarrow>
     generate_hash e (g\<lparr>algorithm := a\<rparr>) n = (d, g\<lparr>algorithm := a\<rparr>) \<and>
     hash_cache (g\<lparr>algorithm := a\<rparr>) = hash_cache g \<and>
     hash_cache (set_salt g s) = Map.empty \<and>
     fst (generate_hash e (set_salt g s) n) =
       hexdigest e (set_salt g s) (hash_input e (set_salt g s) n)"
  by (simp add: generate_hash_def set_salt_def clear_cache_def Let_def)

theorem cached_digest_survives_algorithm_witness:
  "hash_cache (snd (generate_hash demo_env (init ''md5'' []) ''Ann'')) ''Ann'' = Some ''5616e6e'' \<and>
   generate_hash demo_env
     ((snd (generate_hash demo_env (init ''md5'' []) ''Ann''))\<lparr>algorithm := ''sha256''\<rparr>) ''Ann''
     = (''5616e6e'',
        (snd (generate_hash demo_env (init ''md5'' []) ''Ann''))\<lparr>algorithm := ''sha256''\<rparr>) \<and>
   fst (generate_hash demo_env
     (set_salt (snd (generate_hash demo_env (init ''md5'' []) ''Ann'')) ''s'') ''Ann'')
     = ''573616e6e''"
proof -
  have h: "hash_cache (snd (generate_hash demo_env (init ''md5'' []) ''Ann'')) ''Ann''
             = Some ''5616e6e''"
    by code_simp
  have d: "hexdigest demo_env
             (set_salt (snd (generate_hash demo_env (init ''md5'' []) ''Ann'')) ''s'')
             (hash_input demo_env
               (set_salt (snd (generate_hash demo_env (init ''md5'' []) ''Ann'')) ''s'') ''Ann'')
             = ''573616e6e''"
    by code_simp
  from cached_digest_survives_algorithm [OF h, of demo_env "''sha256''" "''s''"] h d
  show ?thesis by simp
qed

section \<open>Generation with no names\<close>

text \<open>
  C6. With an empty list of names the handler of the generation button shows the error
  \<^verbatim>\<open>No names to process!\<close> and returns: the session state (its stored records and its
  step), the generator and the random source are as before, so no record is produced.
  \<open>create_name_id_mapping\<close> on an empty list returns no record either.
\<close>

theorem empty_generation_reports_error:
  "step_2_generate_ids e g rng id_type alg [] st = (st_error ''No names to process!'', st, g, rng) \<and>
   create_name_id_mapping e g rng [] t = ([], g, rng)"
  by (simp add: step_2_generate_ids_def create_name_id_mapping_def)

theorem empty_generation_reports_error_witness:
  "step_2_generate_ids demo_env (init_default demo_env) 0 Hash ''md5'' (final_names_of [''  '', []])
       \<lparr>step = 2, name_id_mappings = []\<rparr>
     = (st_error ''No names to process!'', \<lparr>step = 2, name_id_mappings = []\<rparr>,
        init_default demo_env, 0)"
proof -
  have f: "final_names_of [''  '', []] = []"
    by code_simp
  from empty_generation_reports_error
         [of demo_env "init_default demo_env" 0 Hash "''md5''" "\<lparr>step = 2, name_id_mappings = []\<rparr>"]
  show ?thesis unfolding f by simp
qed

section \<open>The sequential strategy\<close>

lemma mapping_loop_sequential:
  "mapping_loop e ''sequential'' names mappings ex g rng =
     (mappings @ map (\<lambda>(k, n). \<lparr>Name = n, ID = ''ID'' @ format_03d k\<rparr>)
        (zip [length mappings + 1 ..< length mappings + 1 + length names] names), g, rng)"
proof (induction names arbitrary: mappings ex)
  case Nil
  then show ?case by simp
next
  case (Cons a names)
  have "[length mappings + 1 ..< length mappings + 1 + length (a # names)]
        = (length mappings + 1) # [length mappings + 2 ..< length mappings + 2 + length names]"
    by (simp add: upt_rec)
  then show ?case using Cons by (simp add: Let_def)
qed

lemma generate_ids_loop_sequential:
  "generate_ids_loop e Sequential names i mappings g rng =
     (mappings @ map (\<lambda>(k, n). \<lparr>Name = n, ID = ''ID'' @ format_03d k\<rparr>)
        (zip [i + 1 ..< i + 1 + length names] names), g, rng)"
proof (induction names arbitrary: mappings i)
  case Nil
  then show ?case by simp
next
  case (Cons a names)
  have "[i + 1 ..< i + 1 + length (a # names)]
        = (i + 1) # [i + 2 ..< i + 2 + length names]"
    by (simp add: upt_rec)
  then show ?case using Cons by (simp add: Let_def)
qed

lemma map_ID_zip:
  "length ks = length ns \<Longrightarrow>
   map ID (map (\<lambda>(k, n). \<lparr>Name = n, ID = f k\<rparr>) (zip ks ns)) = map f ks"
  by (induction ks ns rule: list_induct2) auto

lemma map_Name_zip:
  "length ks = length ns \<Longrightarrow>
   map Name (map (\<lambda>(k, n). \<lparr>Name = n, ID = f k\<rparr>) (zip ks ns)) = ns"
  by (induction ks ns rule: list_induct2) auto

lemma format_small:
  "format_03d (Suc 0) = ''001''" "format_03d (Suc (Suc 0)) = ''002''"
  "format_03d (Suc (Suc (Suc 0))) = ''003''"
  by code_simp+

text \<open>
  C5. Under the sequential strategy the identifier of the \<open>k\<close>-th record is \<^verbatim>\<open>ID\<close> followed
  by \<open>k\<close> (counted from 1) zero-padded to three digits, whatever the names are and
  whether or not they repeat, and the records carry the names in their order. This holds
  for \<open>create_name_id_mapping\<close> and for the loop of the application; three names get
  \<^verbatim>\<open>ID001\<close>, \<^verbatim>\<open>ID002\<close>, \<^verbatim>\<open>ID003\<close>.
\<close>

theorem sequential_identifiers:
  "map ID (fst (create_name_id_mapping e g rng names ''sequential''))
     = map (\<lambda>k. ''ID'' @ format_03d k) [1 ..< Suc (length names)] \<and>
   map Name (fst (create_name_id_mapping e g rng names ''sequential'')) = names \<and>
   map ID (fst (generate_ids_loop e Sequential names 0 [] g rng))
     = map (\<lambda>k. ''ID'' @ format_03d k) [1 ..< Suc (length names)] \<and>
   map Name (fst (generate_ids_loop e Sequential names 0 [] g rng)) = names \<and>
   map ID (fst (create_name_id_mapping e g rng [a, b, c] ''sequential''))
     = [''ID001'', ''ID002'', ''ID003''] \<and>
   map ID (name_id_mappings (fst (snd (step_2_generate_ids e g rng Sequential alg [a, b, c] st))))
     = [''ID001'', ''ID002'', ''ID003'']"
proof -
  have l: "length [Suc 0 ..< Suc (length names)] = length names"
    by (simp del: upt_Suc)
  have u: "[Suc 0 ..< 4] = [1, 2, 3::nat]" by (simp add: upt_rec)
  have 1: "map ID (fst (create_name_id_mapping e g rng names ''sequential''))
     = map (\<lambda>k. ''ID'' @ format_03d k) [1 ..< Suc (length names)]"
    by (simp add: create_name_id_mapping_def mapping_loop_sequential map_ID_zip [OF l]
          del: map_map upt_Suc)
  have 2: "map Name (fst (create_name_id_mapping e g rng names ''sequential'')) = names"
    by (simp add: create_name_id_mapping_def mapping_loop_sequential map_Name_zip [OF l]
          del: map_map upt_Suc)
  have 3: "map ID (fst (generate_ids_loop e Sequential names 0 [] g rng))
     = map (\<lambda>k. ''ID'' @ format_03d k) [1 ..< Suc (length names)]"
    by (simp add: generate_ids_loop_sequential map_ID_zip [OF l] del: map_map upt_Suc)
  have 4: "map Name (fst (generate_ids_loop e Sequential names 0 [] g rng)) = names"
    by (simp add: generate_ids_loop_sequential map_Name_zip [OF l] del: map_map upt_Suc)
  have 5: "map ID (fst (create_name_id_mapping e g rng [a, b, c] ''sequential''))
     = [''ID001'', ''ID002'', ''ID003'']"
    by (simp add: create_name_id_mapping_def mapping_loop_sequential u format_small
          del: upt_Suc)
  have 6: "map ID (name_id_mappings (fst (snd (step_2_generate_ids e g rng Sequential alg [a, b, c] st))))
     = [''ID001'', ''ID002'', ''ID003'']"
    by (simp add: step_2_generate_ids_def generate_ids_loop_sequential u format_small Let_def
          del: upt_Suc)
  from 1 2 3 4 5 6 show ?thesis by blast
qed

theorem sequential_identifiers_witness:
  "map ID (fst (create_name_id_mapping demo_env (init_default demo_env) 0 [''Bob'', ''Bob'', ''Al''] ''sequential''))
     = [''ID001'', ''ID002'', ''ID003''] \<and>
   map ID (name_id_mappings (fst (snd (step_2_generate_ids demo_env (init_default demo_env) 0
        Sequential ''md5'' [''Bob'', ''Bob'', ''Al''] \<lparr>step = 2, name_id_mappings = []\<rparr>))))
     = [''ID001'', ''ID002'', ''ID003'']"
  using sequential_identifiers [of demo_env "init_default demo_env" 0 "[]" "''Bob''" "''Bob''" "''Al''"
      "''md5''" "\<lparr>step = 2, name_id_mappings = []\<rparr>"]
  by simp

section \<open>Duplicates are kept\<close>

lemma generate_hash_again:
  "fst (generate_hash e (snd (generate_hash e g m)) n) = fst (generate_hash e g n)"
  by (auto simp: generate_hash_def Let_def hexdigest_def hash_input_def split: option.splits)

lemma generate_ids_loop_hash:
  "fst (generate_ids_loop e Hash names i mappings g rng)
     = mappings @ map (\<lambda>n. \<lparr>Name = n, ID = fst (generate_hash e g n)\<rparr>) names"
proof (induction names arbitrary: mappings g i)
  case Nil
  then show ?case by simp
next
  case (Cons a names)
  then show ?case by (simp add: Let_def generate_hash_again)
qed



section \<open>Cleaning and validating a name\<close>

lemma code_to_lower: "code (to_lower c) = (if is_upper c then code c + 32 else code c)"
  by (simp add: to_lower_def code_def is_upper_def)

lemma code_to_upper: "code (to_upper c) = (if is_lower c then code c - 32 else code c)"
proof (cases "is_lower c")
  case True
  then have "code c - 32 < 256"
    unfolding is_lower_def by arith
  then have "(code c - 32) mod 256 = code c - 32"
    by simp
  with True show ?thesis
    by (simp add: to_upper_def code_def)
next
  case False
  then show ?thesis by (simp add: to_upper_def)
qed

lemma code_eq_iff: "code c = code d \<longleftrightarrow> c = d"
  by (simp add: code_def)

lemma is_upper_to_lower: "\<not> is_upper (to_lower c)"
  by (simp add: is_upper_def code_to_lower)

lemma is_lower_to_upper: "\<not> is_lower (to_upper c)"
  by (auto simp add: is_lower_def code_to_upper)

lemma is_alpha_to_lower: "is_alpha (to_lower c) = is_alpha c"
  by (auto simp add: is_alpha_def is_upper_def is_lower_def code_to_lower)

lemma is_alpha_to_upper: "is_alpha (to_upper c) = is_alpha c"
  by (auto simp add: is_alpha_def is_upper_def is_lower_def code_to_upper)

lemma to_lower_to_upper: "to_lower (to_upper c) = to_lower c"
  by (rule iffD1 [OF code_eq_iff]) (auto simp add: code_to_lower code_to_upper is_upper_def is_lower_def)

lemma to_lower_to_lower: "to_lower (to_lower c) = to_lower c"
  by (rule iffD1 [OF code_eq_iff]) (auto simp add: code_to_lower is_upper_def)

lemma to_lower_space: "to_lower (CHR '' '') = CHR '' ''" "to_upper (CHR '' '') = CHR '' ''"
  "\<not> is_alpha (CHR '' '')"
  by code_simp+

lemma titlecased_title_from: "titlecased_from b (title_from b p)"
  by (induction p arbitrary: b)
     (simp_all add: is_upper_to_lower is_lower_to_upper is_alpha_to_lower is_alpha_to_upper)

lemma lower_title_from: "lower (title_from b p) = lower p"
  by (induction p arbitrary: b) (simp_all add: lower_def to_lower_to_upper to_lower_to_lower)

lemma title_from_spec_title_from:
  "list_all (\<lambda>c. is_alpha c \<or> c = CHR '' '') p \<Longrightarrow>
   title_from b p = spec_title_from (\<not> b) p"
  by (induction p arbitrary: b) (auto simp add: to_lower_space)

lemma not_alpha_cases:
  "is_space c \<Longrightarrow> \<not> is_alpha c" "is_digit c \<Longrightarrow> \<not> is_alpha c" "is_punct c \<Longrightarrow> \<not> is_alpha c"
  "\<not> is_word c \<Longrightarrow> \<not> is_alpha c" "\<not> is_alpha (CHR 0x0A)"
  by (auto simp add: is_space_def is_digit_def is_punct_def is_word_def is_alpha_def
        is_upper_def is_lower_def code_def)

lemma dropWhile_all: "list_all P s \<Longrightarrow> dropWhile P s = []"
  by (induction s) auto

lemma dropWhile_Nil_all: "dropWhile P s = [] \<Longrightarrow> list_all P s"
  by (induction s) (auto split: if_splits)

lemma strip_Nil_iff: "strip s = [] \<longleftrightarrow> list_all is_space s"
proof
  assume "strip s = []"
  then have "dropWhile is_space (rev (dropWhile is_space s)) = []"
    unfolding strip_def by (simp only: rev_is_Nil_conv)
  then have "list_all is_space (rev (dropWhile is_space s))"
    by (rule dropWhile_Nil_all)
  then have a: "list_all is_space (dropWhile is_space s)"
    by (simp only: list_all_rev)
  have "dropWhile is_space s = []"
  proof (rule ccontr)
    assume n: "dropWhile is_space s \<noteq> []"
    then have "\<not> is_space (hd (dropWhile is_space s))"
      by (rule hd_dropWhile)
    moreover have "hd (dropWhile is_space s) \<in> set (dropWhile is_space s)"
      using n by simp
    ultimately show False
      using a unfolding list_all_iff by blast
  qed
  then show "list_all is_space s"
    by (rule dropWhile_Nil_all)
next
  assume "list_all is_space s"
  then have d: "dropWhile is_space s = []"
    by (rule dropWhile_all)
  show "strip s = []"
    by (simp only: strip_def d rev.simps dropWhile.simps)
qed

lemma validate_name_iff: "validate_name s \<longleftrightarrow> 2 \<le> length s \<and> list_ex is_alpha s"
proof (cases "list_ex is_alpha s")
  case False
  then show ?thesis by (simp add: validate_name_def search_letter_def)
next
  case True
  then obtain c where c: "c \<in> set s" "is_alpha c"
    by (auto simp add: list_ex_iff)
  have 1: "s \<noteq> []" using c by auto
  have 2: "strip s \<noteq> []"
    using c not_alpha_cases(1) by (auto simp add: strip_Nil_iff list_all_iff)
  have 3: "\<not> isdigit s"
    using c not_alpha_cases(2) by (auto simp add: isdigit_def list_all_iff)
  have "c \<in> set (butlast s) \<or> c = last s"
    using c(1) 1 by (metis append_butlast_last_id in_set_conv_decomp insert_iff
        list.set(2) rotate1.simps(2) set_rotate1)
  then have 4: "\<not> match_only_punct s"
    using c not_alpha_cases(3,5) by (auto simp add: match_only_punct_def list_all_iff)
  from True 1 2 3 4 show ?thesis
    by (auto simp add: validate_name_def search_letter_def)
qed

lemma spec_rejects_iff: "spec_rejects s \<longleftrightarrow> \<not> (2 \<le> length s \<and> list_ex is_alpha s)"
proof (cases "list_ex is_alpha s")
  case False
  then show ?thesis by (simp add: spec_rejects_def)
next
  case True
  then obtain c where c: "c \<in> set s" "is_alpha c"
    by (auto simp add: list_ex_iff)
  have 1: "s \<noteq> []" using c by auto
  have 2: "\<not> list_all is_digit s"
    using c not_alpha_cases(2) by (auto simp add: list_all_iff)
  have 3: "\<not> list_all (\<lambda>c. \<not> is_word c) s"
    using c not_alpha_cases(4) by (auto simp add: list_all_iff)
  from True 1 2 3 show ?thesis
    by (auto simp add: spec_rejects_def)
qed

text \<open>
  C8. The cleaned form of \<^verbatim>\<open>123\<close> and of \<^verbatim>\<open>!!!\<close> is rejected, so \<open>process_names\<close> reports
  both as invalid; the cleaned form of \<^verbatim>\<open>  john   doe  \<close> is \<^verbatim>\<open>John Doe\<close>, which is accepted.
  In general \<open>validate_name\<close> rejects a string of ASCII characters exactly when the
  rejection rule of the specification holds of it.
\<close>

theorem validity_boundary:
  "\<not> validate_name (clean_name ''123'') \<and>
   \<not> validate_name (clean_name ''!!!'') \<and>
   clean_name ''  john   doe  '' = ''John Doe'' \<and>
   validate_name ''John Doe'' \<and>
   invalid_names (process_names [''123'', ''!!!'', ''  john   doe  '']) = [''123'', ''!!!''] \<and>
   all_cleaned_names (process_names [''123'', ''!!!'', ''  john   doe  '']) = [''John Doe''] \<and>
   (ascii s \<longrightarrow> (\<not> validate_name s) = spec_rejects s)"
proof -
  have 1: "\<not> validate_name (clean_name ''123'')" by code_simp
  have 2: "\<not> validate_name (clean_name ''!!!'')" by code_simp
  have 3: "clean_name ''  john   doe  '' = ''John Doe''" by code_simp
  have 4: "validate_name ''John Doe''" by code_simp
  have 5: "invalid_names (process_names [''123'', ''!!!'', ''  john   doe  '']) = [''123'', ''!!!'']"
    by code_simp
  have 6: "all_cleaned_names (process_names [''123'', ''!!!'', ''  john   doe  '']) = [''John Doe'']"
    by code_simp
  have 7: "(\<not> validate_name s) = spec_rejects s"
    by (simp add: validate_name_iff spec_rejects_iff)
  from 1 2 3 4 5 6 7 show ?thesis by blast
qed

theorem validity_boundary_witness:
  "ascii ''A1'' \<and> validate_name ''A1'' \<and> \<not> spec_rejects ''A1'' \<and>
   ascii ''?7'' \<and> \<not> validate_name ''?7'' \<and> spec_rejects ''?7''"
proof -
  have a: "ascii ''A1''" by code_simp
  have b: "validate_name ''A1''" by code_simp
  have c: "ascii ''?7''" by code_simp
  have d: "\<not> validate_name ''?7''" by code_simp
  from validity_boundary [of "''A1''"] validity_boundary [of "''?7''"] a b c d
  show ?thesis by simp
qed

text \<open>
  C7, as the specification states it, fails: the cleaned form of \<^verbatim>\<open>o'connor\<close> is accepted
  and is \<^verbatim>\<open>O'Connor\<close>, while uppercasing the first character of each space-separated
  token and lowercasing the rest gives \<^verbatim>\<open>O'connor\<close>.
\<close>

theorem title_case_counterexample:
  "validate_name (clean_name ''o'connor'') \<and>
   clean_name ''o'connor'' = ''O'Connor'' \<and>
   spec_title (sub_outer_punct (sub_spaces (strip ''o'connor''))) = ''O'connor'' \<and>
   clean_name ''o'connor'' \<noteq> spec_title (clean_name ''o'connor'')"
  by code_simp

text \<open>
  C7, amended. The cleaned form of a name of ASCII characters is in title case with
  respect to runs of letters: a letter that starts the string or follows a character
  that is not a letter (a space, an apostrophe, a hyphen, a digit) is uppercase, and a
  letter that follows a letter is lowercase. Title casing changes nothing but the case
  of letters, so punctuation inside the name is kept. Where the name, once stripped
  of outer whitespace and punctuation, consists of letters and spaces only, the result
  is the title casing by space-separated tokens that the specification describes.
\<close>

theorem title_case_by_letter_runs:
  "ascii x \<Longrightarrow>
     titlecased (clean_name x) \<and>
     lower (clean_name x) = lower (sub_outer_punct (sub_spaces (strip x))) \<and>
     (list_all (\<lambda>c. is_alpha c \<or> c = CHR '' '') (sub_outer_punct (sub_spaces (strip x))) \<longrightarrow>
        clean_name x = spec_title (sub_outer_punct (sub_spaces (strip x))))"
proof -
  have e: "sub_outer_punct (sub_spaces (strip [])) = []"
    by (simp add: strip_def sub_outer_punct_def rstrip_punct_def)
  show ?thesis
  proof (cases "x = []")
    case True
    then show ?thesis
      by (simp add: clean_name_def e titlecased_def lower_def spec_title_def)
  next
    case False
    then show ?thesis
      by (simp add: clean_name_def titlecased_def title_def spec_title_def
            titlecased_title_from lower_title_from title_from_spec_title_from)
  qed
qed

theorem title_case_by_letter_runs_witness:
  "ascii ''mary-jane o'neil'' \<and>
   clean_name ''mary-jane o'neil'' = ''Mary-Jane O'Neil'' \<and>
   titlecased ''Mary-Jane O'Neil'' \<and>
   ascii ''  john   doe  '' \<and>
   clean_name ''  john   doe  '' = spec_title ''john doe''"
proof -
  have a: "ascii ''mary-jane o'neil''" by code_simp
  have b: "clean_name ''mary-jane o'neil'' = ''Mary-Jane O'Neil''" by code_simp
  have c: "ascii ''  john   doe  ''" by code_simp
  have d: "sub_outer_punct (sub_spaces (strip ''  john   doe  '')) = ''john doe''" by code_simp
  have f: "list_all (\<lambda>c. is_alpha c \<or> c = CHR '' '') ''john doe''" by code_simp
  from title_case_by_letter_runs [OF a] title_case_by_letter_runs [OF c] a b c d f
  show ?thesis by simp
qed

text \<open>
  C9 fails on the code: cleaning \<^verbatim>\<open>! john\<close> strips the whitespace first and the leading
  punctuation after it, which leaves the space that followed the punctuation. The
  result \<^verbatim>\<open> John\<close> is accepted as valid, and cleaning it again gives \<^verbatim>\<open>John\<close>.
\<close>

theorem clean_name_not_idempotent:
  "validate_name (clean_name ''! john'') \<and>
   clean_name ''! john'' = '' John'' \<and>
   clean_name (clean_name ''! john'') = ''John''"
  by code_simp

section \<open>Collisions in a batch\<close>

lemma same_hashes_refl: "same_hashes e g g"
  by (simp add: same_hashes_def)

lemma same_hashes_step:
  "same_hashes e g g' \<Longrightarrow> same_hashes e g (snd (generate_hash e g' m))"
  by (simp add: same_hashes_def generate_hash_again)

lemma unique_loop_found:
  "same_hashes e g g' \<Longrightarrow> c \<le> j \<Longrightarrow> j \<le> 1000 \<Longrightarrow> suffixed_hash e g name j \<notin> ex \<Longrightarrow>
   (\<And>i. c \<le> i \<Longrightarrow> i < j \<Longrightarrow> suffixed_hash e g name i \<in> ex) \<Longrightarrow>
   fst (unique_loop e g' rng name ex c) = suffixed_hash e g name j \<and>
   snd (snd (unique_loop e g' rng name ex c)) = rng"
proof (induction "j - c" arbitrary: c g')
  case 0
  then have "c = j" by simp
  with 0 show ?case
    by (subst unique_loop.simps, subst (2) unique_loop.simps)
       (simp add: Let_def suffixed_hash_def same_hashes_def)
next
  case (Suc d)
  then have lt: "c < j" by simp
  have inex: "fst (generate_hash e g' (name @ ''_'' @ str_nat c)) \<in> ex"
    using Suc.prems(1) Suc.prems(5) [of c] lt
    by (simp add: suffixed_hash_def same_hashes_def)
  have step: "unique_loop e g' rng name ex c
              = unique_loop e (snd (generate_hash e g' (name @ ''_'' @ str_nat c))) rng name ex (c + 1)"
    using inex lt Suc.prems(3)
    by (subst unique_loop.simps) (simp add: Let_def)
  have "fst (unique_loop e (snd (generate_hash e g' (name @ ''_'' @ str_nat c))) rng name ex (c + 1))
          = suffixed_hash e g name j \<and>
        snd (snd (unique_loop e (snd (generate_hash e g' (name @ ''_'' @ str_nat c))) rng name ex (c + 1)))
          = rng"
  proof (rule Suc.hyps(1))
    show "d = j - (c + 1)" using Suc.hyps(2) by simp
    show "same_hashes e g (snd (generate_hash e g' (name @ ''_'' @ str_nat c)))"
      using Suc.prems(1) by (rule same_hashes_step)
    show "c + 1 \<le> j" using lt by simp
    show "j \<le> 1000" by fact
    show "suffixed_hash e g name j \<notin> ex" by fact
    show "suffixed_hash e g name i \<in> ex" if "c + 1 \<le> i" "i < j" for i
      using that Suc.prems(5) [of i] by simp
  qed
  with step show ?case by simp
qed

lemma unique_loop_exhausted:
  "same_hashes e g g' \<Longrightarrow> c \<le> 1000 \<Longrightarrow>
   (\<And>i. c \<le> i \<Longrightarrow> i \<le> 1000 \<Longrightarrow> suffixed_hash e g name i \<in> ex) \<Longrightarrow>
   fst (unique_loop e g' rng name ex c) = fallback_token e rng \<and>
   snd (snd (unique_loop e g' rng name ex c)) = rng + 1"
proof (induction "1000 - c" arbitrary: c g')
  case 0
  then have c: "c = 1000" by simp
  have inex: "fst (generate_hash e g' (name @ ''_'' @ str_nat c)) \<in> ex"
    using "0.prems"(1) "0.prems"(3) [of c] c
    by (simp add: suffixed_hash_def same_hashes_def)
  show ?case
    using inex c
    by (subst unique_loop.simps, subst (2) unique_loop.simps)
       (simp add: Let_def fallback_token_def)
next
  case (Suc d)
  then have lt: "c < 1000" by simp
  have inex: "fst (generate_hash e g' (name @ ''_'' @ str_nat c)) \<in> ex"
    using Suc.prems(1) Suc.prems(3) [of c] lt
    by (simp add: suffixed_hash_def same_hashes_def)
  have step: "unique_loop e g' rng name ex c
              = unique_loop e (snd (generate_hash e g' (name @ ''_'' @ str_nat c))) rng name ex (c + 1)"
    using inex lt
    by (subst unique_loop.simps) (simp add: Let_def)
  have "fst (unique_loop e (snd (generate_hash e g' (name @ ''_'' @ str_nat c))) rng name ex (c + 1))
          = fallback_token e rng \<and>
        snd (snd (unique_loop e (snd (generate_hash e g' (name @ ''_'' @ str_nat c))) rng name ex (c + 1)))
          = rng + 1"
  proof (rule Suc.hyps(1))
    show "d = 1000 - (c + 1)" using Suc.hyps(2) by simp
    show "same_hashes e g (snd (generate_hash e g' (name @ ''_'' @ str_nat c)))"
      using Suc.prems(1) by (rule same_hashes_step)
    show "c + 1 \<le> 1000" using lt by simp
    show "suffixed_hash e g name i \<in> ex" if "c + 1 \<le> i" "i \<le> 1000" for i
      using that Suc.prems(3) [of i] by simp
  qed
  with step show ?case by simp
qed

lemma mapping_loop_names:
  "map Name (fst (mapping_loop e t names mappings ex g rng)) = map Name mappings @ names"
  by (induction names arbitrary: mappings ex g rng) (simp_all add: Let_def)

lemma demo_hash_Ann: "fst (generate_hash demo_env (init_default demo_env) ''Ann'') = ''5616e6e''"
  by code_simp

lemma demo_hash_Ann_1:
  "suffixed_hash demo_env (init_default demo_env) ''Ann'' 1 = ''5616e6e5f31''"
  "suffixed_hash demo_env (init_default demo_env) ''Ann'' (Suc 0) = ''5616e6e5f31''"
  by code_simp+

lemma demo_token_0: "fallback_token demo_env 0 = ''00000000000040008000000000000000''"
  by code_simp

text \<open>
  C4. \<open>generate_unique_hash\<close> returns the hash of the name when that hash is not among
  the identifiers given so far. When it is, the name is rehashed with the suffixes
  \<^verbatim>\<open>_1\<close>, \<^verbatim>\<open>_2\<close>, ... in turn (the suffix goes on the name, not on the hash), and the first
  hash that is not taken, at a suffix up to 1000, is returned. When the hash of the name
  and of each of its 1000 suffixed forms is taken, the result is the fallback token, a
  UUID drawn from the random source without its dashes. In every case
  \<open>create_name_id_mapping\<close> goes on with the batch: its records carry the names of the
  input, one record for each name and in the same order.
\<close>

theorem collision_retry_then_fallback:
  "(fst (generate_hash e g name) \<notin> ex \<longrightarrow>
      fst (generate_unique_hash e g rng name ex) = fst (generate_hash e g name) \<and>
      snd (snd (generate_unique_hash e g rng name ex)) = rng) \<and>
   (fst (generate_hash e g name) \<in> ex \<and> 1 \<le> j \<and> j \<le> 1000 \<and>
    suffixed_hash e g name j \<notin> ex \<and> (\<forall>i. 1 \<le> i \<and> i < j \<longrightarrow> suffixed_hash e g name i \<in> ex) \<longrightarrow>
      fst (generate_unique_hash e g rng name ex) = suffixed_hash e g name j \<and>
      snd (snd (generate_unique_hash e g rng name ex)) = rng) \<and>
   (fst (generate_hash e g name) \<in> ex \<and>
    (\<forall>i. 1 \<le> i \<and> i \<le> 1000 \<longrightarrow> suffixed_hash e g name i \<in> ex) \<longrightarrow>
      fst (generate_unique_hash e g rng name ex) = fallback_token e rng \<and>
      snd (snd (generate_unique_hash e g rng name ex)) = rng + 1) \<and>
   map Name (fst (create_name_id_mapping e g rng names t)) = names"
proof -
  have s: "same_hashes e g (snd (generate_hash e g name))"
    using same_hashes_refl by (rule same_hashes_step)
  have 1: "fst (generate_hash e g name) \<notin> ex \<longrightarrow>
      fst (generate_unique_hash e g rng name ex) = fst (generate_hash e g name) \<and>
      snd (snd (generate_unique_hash e g rng name ex)) = rng"
    by (simp add: generate_unique_hash_def Let_def)
  have 2: "fst (generate_unique_hash e g rng name ex) = suffixed_hash e g name j \<and>
      snd (snd (generate_unique_hash e g rng name ex)) = rng"
    if "fst (generate_hash e g name) \<in> ex" "1 \<le> j" "j \<le> 1000"
       "suffixed_hash e g name j \<notin> ex" "\<forall>i. 1 \<le> i \<and> i < j \<longrightarrow> suffixed_hash e g name i \<in> ex"
    using unique_loop_found [OF s that(2) that(3) that(4), where rng = rng] that(1) that(5)
    by (simp add: generate_unique_hash_def Let_def)
  have 3: "fst (generate_unique_hash e g rng name ex) = fallback_token e rng \<and>
      snd (snd (generate_unique_hash e g rng name ex)) = rng + 1"
    if "fst (generate_hash e g name) \<in> ex"
       "\<forall>i. 1 \<le> i \<and> i \<le> 1000 \<longrightarrow> suffixed_hash e g name i \<in> ex"
    using unique_loop_exhausted [OF s, where c = 1 and ex = ex and rng = rng] that
    by (simp add: generate_unique_hash_def Let_def)
  have 4: "map Name (fst (create_name_id_mapping e g rng names t)) = names"
    by (simp add: create_name_id_mapping_def mapping_loop_names)
  from 1 2 3 4 show ?thesis by blast
qed


theorem collision_retry_then_fallback_witness:
  "fst (generate_unique_hash demo_env (init_default demo_env) 0 ''Ann'' {}) = ''5616e6e'' \<and>
   fst (generate_unique_hash demo_env (init_default demo_env) 0 ''Ann'' {''5616e6e''})
     = ''5616e6e5f31'' \<and>
   fst (generate_unique_hash demo_env (init_default demo_env) 0 ''Ann''
          (insert ''5616e6e'' (suffixed_hash demo_env (init_default demo_env) ''Ann'' ` {1..1000})))
     = ''00000000000040008000000000000000'' \<and>
   snd (snd (generate_unique_hash demo_env (init_default demo_env) 0 ''Ann''
          (insert ''5616e6e'' (suffixed_hash demo_env (init_default demo_env) ''Ann'' ` {1..1000}))))
     = 1"
proof -
  let ?g = "init_default demo_env"
  let ?all = "insert ''5616e6e'' (suffixed_hash demo_env ?g ''Ann'' ` {1..1000})"
  have a: "fst (generate_hash demo_env ?g ''Ann'') \<notin> {}" by simp
  have b: "fst (generate_hash demo_env ?g ''Ann'') \<in> {''5616e6e''} \<and> (1::nat) \<le> 1 \<and> (1::nat) \<le> 1000 \<and>
           suffixed_hash demo_env ?g ''Ann'' 1 \<notin> {''5616e6e''} \<and>
           (\<forall>i. 1 \<le> i \<and> i < 1 \<longrightarrow> suffixed_hash demo_env ?g ''Ann'' i \<in> {''5616e6e''})"
    by (simp add: demo_hash_Ann demo_hash_Ann_1)
  have c: "fst (generate_hash demo_env ?g ''Ann'') \<in> ?all \<and>
           (\<forall>i. 1 \<le> i \<and> i \<le> 1000 \<longrightarrow> suffixed_hash demo_env ?g ''Ann'' i \<in> ?all)"
    by (simp add: demo_hash_Ann)
  have 1: "fst (generate_unique_hash demo_env ?g 0 ''Ann'' {}) = fst (generate_hash demo_env ?g ''Ann'')"
    using collision_retry_then_fallback [of demo_env ?g "''Ann''" "{}" 0 1 "[]" "''hash''"] a
    by blast
  have 2: "fst (generate_unique_hash demo_env ?g 0 ''Ann'' {''5616e6e''})
             = suffixed_hash demo_env ?g ''Ann'' 1"
    using collision_retry_then_fallback [of demo_env ?g "''Ann''" "{''5616e6e''}" 0 1 "[]" "''hash''"] b
    by blast
  have 3: "fst (generate_unique_hash demo_env ?g 0 ''Ann'' ?all) = fallback_token demo_env 0 \<and>
           snd (snd (generate_unique_hash demo_env ?g 0 ''Ann'' ?all)) = 0 + 1"
    using collision_retry_then_fallback [of demo_env ?g "''Ann''" ?all 0 1 "[]" "''hash''"] c
    by blast
  from 1 2 3 show ?thesis
    by (simp only: demo_hash_Ann demo_hash_Ann_1 demo_token_0) simp
qed

section \<open>Determinism of the content hash\<close>

lemma cache_consistent_init: "cache_consistent e (init a s)"
  by (simp add: cache_consistent_def init_def)

lemma cache_consistent_clear: "cache_consistent e (clear_cache g)"
  by (simp add: cache_consistent_def clear_cache_def)

lemma cache_consistent_set_salt: "cache_consistent e (set_salt g s)"
  by (simp add: set_salt_def cache_consistent_clear)

lemma hexdigest_cache_update:
  "hexdigest e (g\<lparr>hash_cache := m\<rparr>) x = hexdigest e g x"
  by (simp add: hexdigest_def)

lemma hash_input_cache_update:
  "hash_input e (g\<lparr>hash_cache := m\<rparr>) n = hash_input e g n"
  by (simp add: hash_input_def Let_def cong: if_cong)

lemma generate_hash_keeps:
  "algorithm (snd (generate_hash e g n)) = algorithm g \<and>
   salt (snd (generate_hash e g n)) = salt g"
  by (simp add: generate_hash_def Let_def split: option.splits)

lemma cache_consistent_generate_hash:
  "cache_consistent e g \<Longrightarrow> cache_consistent e (snd (generate_hash e g n))"
  by (auto simp add: cache_consistent_def generate_hash_def Let_def hexdigest_cache_update
        hash_input_cache_update split: option.splits)

lemma generate_hash_consistent:
  "cache_consistent e g \<Longrightarrow> fst (generate_hash e g n) = hexdigest e g (hash_input e g n)"
  by (auto simp add: cache_consistent_def generate_hash_def Let_def split: option.splits)

lemma hash_input_cong:
  "salt g1 = salt g2 \<Longrightarrow> lower (strip n1) = lower (strip n2) \<Longrightarrow>
   hash_input e g1 n1 = hash_input e g2 n2"
  by (simp add: hash_input_def Let_def)

lemma hexdigest_cong: "algorithm g1 = algorithm g2 \<Longrightarrow> hexdigest e g1 x = hexdigest e g2 x"
  by (simp add: hexdigest_def)

lemma hexdigest_lower_hex: "hex_library e \<Longrightarrow> lower_hex (hexdigest e g x)"
  by (simp add: hex_library_def hexdigest_def)

lemma hex_digit_lower_hex:
  "d < 16 \<Longrightarrow> is_digit (hex_digit d) \<or> (97 \<le> code (hex_digit d) \<and> code (hex_digit d) \<le> 102)"
  by (auto simp add: hex_digit_def is_digit_def code_def)

lemma lower_hex_hex_of_char: "lower_hex (hex_of_char c)"
proof -
  have "code c < 256" by (simp add: code_def)
  then have "code c div 16 < 16" "code c mod 16 < 16" by simp_all
  then show ?thesis
    using hex_digit_lower_hex by (simp add: lower_hex_def hex_of_char_def)
qed

lemma lower_hex_append: "lower_hex (a @ b) = (lower_hex a \<and> lower_hex b)"
  by (simp add: lower_hex_def)

lemma lower_hex_concat: "lower_hex (concat (map hex_of_char x))"
  by (induction x) (simp_all add: lower_hex_append lower_hex_hex_of_char, simp add: lower_hex_def)

lemma lower_hex_demo_digest: "lower_hex tag \<Longrightarrow> lower_hex (demo_digest tag x)"
  by (simp only: demo_digest_def lower_hex_append lower_hex_concat)

lemma hex_library_demo: "hex_library demo_env"
proof -
  have t: "lower_hex ''5''" "lower_hex ''256''" "lower_hex ''1''" by code_simp+
  show ?thesis
    unfolding hex_library_def demo_env_def
    by (simp only: env.simps lower_hex_demo_digest [OF t(1)] lower_hex_demo_digest [OF t(2)]
          lower_hex_demo_digest [OF t(3)]) simp
qed

text \<open>
  \<open>generate_hashes_batch\<close> calls \<open>generate_hash\<close> on each name in turn, as the loop of the
  application and \<open>generate_unique_hash\<close> do. It keeps the cache consistent with the
  algorithm and the salt, which it leaves as they are; so on a generator that was new
  and has hashed any list of names, \<open>generate_hash\<close> returns the digest that a new
  generator computes.
\<close>

lemma generate_hashes_batch_step:
  "generate_hashes_batch e g (n # ns) h
     = generate_hashes_batch e (snd (generate_hash e g n)) ns (h(n \<mapsto> fst (generate_hash e g n)))"
  by (simp only: generate_hashes_batch.simps Let_def split_beta)

lemma generate_hashes_batch_consistent:
  "cache_consistent e g \<Longrightarrow>
   cache_consistent e (snd (generate_hashes_batch e g ns h)) \<and>
   algorithm (snd (generate_hashes_batch e g ns h)) = algorithm g \<and>
   salt (snd (generate_hashes_batch e g ns h)) = salt g"
proof (induction ns arbitrary: g h)
  case Nil
  then show ?case by (simp only: generate_hashes_batch.simps snd_conv)
next
  case (Cons n ns)
  let ?g1 = "snd (generate_hash e g n)"
  let ?h1 = "h(n \<mapsto> fst (generate_hash e g n))"
  have c: "cache_consistent e ?g1"
    using Cons.prems by (rule cache_consistent_generate_hash)
  have k: "algorithm ?g1 = algorithm g" "salt ?g1 = salt g"
    using generate_hash_keeps [of e g n] by blast+
  have i: "cache_consistent e (snd (generate_hashes_batch e ?g1 ns ?h1)) \<and>
      algorithm (snd (generate_hashes_batch e ?g1 ns ?h1)) = algorithm ?g1 \<and>
      salt (snd (generate_hashes_batch e ?g1 ns ?h1)) = salt ?g1"
    using c by (rule Cons.IH)
  show ?case
    unfolding generate_hashes_batch_step using i k by (simp only:)
qed

lemma init_fields: "algorithm (init a s) = a" "salt (init a s) = s"
  by (simp_all add: init_def)

lemma generate_hash_after_batch:
  "fst (generate_hash e (snd (generate_hashes_batch e (init a s) ns h)) n)
     = hexdigest e (init a s) (hash_input e (init a s) n)"
proof -
  let ?g = "snd (generate_hashes_batch e (init a s) ns h)"
  have c: "cache_consistent e ?g \<and> algorithm ?g = algorithm (init a s) \<and> salt ?g = salt (init a s)"
    using cache_consistent_init by (rule generate_hashes_batch_consistent)
  have c1: "cache_consistent e ?g" using c by (rule conjunct1)
  have c2: "algorithm ?g = algorithm (init a s)" using c by (rule conjunct1 [OF conjunct2])
  have c3: "salt ?g = salt (init a s)" using c by (rule conjunct2 [OF conjunct2])
  have "fst (generate_hash e ?g n) = hexdigest e ?g (hash_input e ?g n)"
    using c1 by (rule generate_hash_consistent)
  also have "\<dots> = hexdigest e (init a s) (hash_input e ?g n)"
    using c2 by (rule hexdigest_cong)
  also have "\<dots> = hexdigest e (init a s) (hash_input e (init a s) n)"
    using hash_input_cong [OF c3 refl, of e n] by (simp only:)
  finally show ?thesis .
qed

lemma init_assign_algorithm: "(init a0 s)\<lparr>algorithm := a\<rparr> = init a s"
  by (simp add: init_def)

lemma set_salt_is_init: "set_salt g s = init (algorithm g) s"
  by (simp add: set_salt_def clear_cache_def init_def)

lemma clear_cache_is_init: "clear_cache g = init (algorithm g) (salt g)"
  by (simp add: clear_cache_def init_def)

text \<open>
  A generator whose salt was set or whose cache was cleared is a new generator, and so
  is the one the application hashes with: \<^verbatim>\<open>main\<close> builds a generator on every run and
  the handler assigns the chosen algorithm to it before the first name is hashed. The
  identifiers of the hash strategy are therefore the digests, under the chosen
  algorithm, of the default salt followed by each trimmed and lowercased name.
\<close>

lemma app_hash_ids:
  "ascii (DEFAULT_SALT e) \<Longrightarrow> list_all ascii names \<Longrightarrow> names \<noteq> [] \<Longrightarrow>
   map ID (name_id_mappings (fst (snd (step_2_generate_ids e (init_default e) rng Hash a names st))))
     = map (\<lambda>n. hexdigest e (init a (DEFAULT_SALT e)) (hash_input e (init a (DEFAULT_SALT e)) n)) names"
proof -
  assume n: "names \<noteq> []"
  have g: "fst (generate_hash e (init a (DEFAULT_SALT e)) m)
             = hexdigest e (init a (DEFAULT_SALT e)) (hash_input e (init a (DEFAULT_SALT e)) m)" for m
    using cache_consistent_init by (rule generate_hash_consistent)
  show ?thesis
    using n
    by (simp add: step_2_generate_ids_def Let_def init_default_def init_assign_algorithm
          generate_ids_loop_hash comp_def g)
qed

text \<open>
  C3. Content-hash generation is deterministic. Take two generators built with the same
  algorithm \<open>a\<close> and salt \<open>s\<close>; let the first have hashed the names \<open>ns1\<close> and the second
  the names \<open>ns2\<close>, any two lists, and let \<open>n1\<close> and \<open>n2\<close> be equal after trimming and
  lowercasing, the salt and all names being ASCII. Then \<open>generate_hash\<close> returns for
  \<open>n1\<close> on the first generator what it returns for \<open>n2\<close> on the second: on the same
  instance called again (\<open>n1\<close> among \<open>ns1\<close>, where the answer comes from the cache), on
  another instance, and on a new one (\<open>ns2\<close> empty). The output is the digest, under
  \<open>a\<close>, of \<open>s\<close> followed by the trimmed and lowercased name, so nothing random and
  nothing of the earlier calls enters it; and it is lowercase hexadecimal when the
  digests of the library are. The generators on which the code changes a parameter of
  the hash are new ones: the application assigns the algorithm to the generator it has
  just built, \<open>set_salt\<close> empties the cache, and so does \<open>clear_cache\<close>.
\<close>

theorem deterministic_hash:
  "ascii s \<Longrightarrow> list_all ascii ns1 \<Longrightarrow> list_all ascii ns2 \<Longrightarrow> ascii n1 \<Longrightarrow> ascii n2 \<Longrightarrow>
   lower (strip n1) = lower (strip n2) \<Longrightarrow>
     fst (generate_hash e (snd (generate_hashes_batch e (init a s) ns1 h1)) n1)
       = fst (generate_hash e (snd (generate_hashes_batch e (init a s) ns2 h2)) n2) \<and>
     fst (generate_hash e (snd (generate_hashes_batch e (init a s) ns1 h1)) n1)
       = hexdigest e (init a s) (hash_input e (init a s) n1) \<and>
     (hex_library e \<longrightarrow>
        lower_hex (fst (generate_hash e (snd (generate_hashes_batch e (init a s) ns1 h1)) n1))) \<and>
     (init a0 s)\<lparr>algorithm := a\<rparr> = init a s \<and>
     set_salt g s = init (algorithm g) s \<and>
     clear_cache g = init (algorithm g) (salt g)"
proof -
  assume eq: "lower (strip n1) = lower (strip n2)"
  have i: "hash_input e (init a s) n1 = hash_input e (init a s) n2"
    using refl eq by (rule hash_input_cong)
  have 1: "fst (generate_hash e (snd (generate_hashes_batch e (init a s) ns1 h1)) n1)
       = fst (generate_hash e (snd (generate_hashes_batch e (init a s) ns2 h2)) n2)"
    by (simp only: generate_hash_after_batch i)
  have 2: "fst (generate_hash e (snd (generate_hashes_batch e (init a s) ns1 h1)) n1)
       = hexdigest e (init a s) (hash_input e (init a s) n1)"
    by (rule generate_hash_after_batch)
  have 3: "hex_library e \<longrightarrow>
      lower_hex (fst (generate_hash e (snd (generate_hashes_batch e (init a s) ns1 h1)) n1))"
    unfolding generate_hash_after_batch by (rule impI) (rule hexdigest_lower_hex)
  have 4: "(init a0 s)\<lparr>algorithm := a\<rparr> = init a s"
    by (rule init_assign_algorithm)
  have 5: "set_salt g s = init (algorithm g) s"
    by (rule set_salt_is_init)
  have 6: "clear_cache g = init (algorithm g) (salt g)"
    by (rule clear_cache_is_init)
  from 1 2 3 4 5 6 show ?thesis by (intro conjI)
qed

theorem deterministic_hash_witness:
  "fst (generate_hash demo_env (snd (generate_hashes_batch demo_env (init ''sha1'' ''s'') [''Bob'', ''Ann''] Map.empty)) ''Ann'')
     = fst (generate_hash demo_env (snd (generate_hashes_batch demo_env (init ''sha1'' ''s'') [] Map.empty)) '' ANN '') \<and>
   fst (generate_hash demo_env (snd (generate_hashes_batch demo_env (init ''sha1'' ''s'') [''Bob'', ''Ann''] Map.empty)) ''Ann'')
     = ''173616e6e'' \<and>
   lower_hex (fst (generate_hash demo_env (snd (generate_hashes_batch demo_env (init ''sha1'' ''s'') [''Bob'', ''Ann''] Map.empty)) ''Ann''))"
proof -
  have a: "ascii ''s''" "list_all ascii [''Bob'', ''Ann'']" "list_all ascii []" "ascii ''Ann''"
    "ascii '' ANN ''"
    by code_simp+
  have n: "lower (strip ''Ann'') = lower (strip '' ANN '')" by code_simp
  have d: "hexdigest demo_env (init ''sha1'' ''s'') (hash_input demo_env (init ''sha1'' ''s'') ''Ann'')
             = ''173616e6e''"
    by code_simp
  let ?A = "fst (generate_hash demo_env (snd (generate_hashes_batch demo_env (init ''sha1'' ''s'') [''Bob'', ''Ann''] Map.empty)) ''Ann'')"
  let ?B = "fst (generate_hash demo_env (snd (generate_hashes_batch demo_env (init ''sha1'' ''s'') [] Map.empty)) '' ANN '')"
  note t = deterministic_hash [OF a n, of demo_env "''sha1''" Map.empty Map.empty]
  have 1: "?A = ?B" using t by (rule conjunct1)
  have "?A = hexdigest demo_env (init ''sha1'' ''s'') (hash_input demo_env (init ''sha1'' ''s'') ''Ann'')"
    using t by (rule conjunct1 [OF conjunct2])
  then have 2: "?A = ''173616e6e''" using d by (rule trans)
  have "hex_library demo_env \<longrightarrow> lower_hex ?A"
    using t by (rule conjunct1 [OF conjunct2 [OF conjunct2]])
  then have 3: "lower_hex ?A" using hex_library_demo by (rule mp)
  from 1 2 3 show ?thesis by (intro conjI)
qed

section \<open>Uniqueness of identifiers\<close>

lemma code_digit_char: "d < 10 \<Longrightarrow> code (digit_char d) = 48 + d"
  by (simp add: digit_char_def code_def)

lemma digits_value_snoc: "digits_value (s @ [c]) = 10 * digits_value s + (code c - 48)"
  by (simp add: digits_value_def)

lemma digits_value_str_nat: "digits_value (str_nat n) = n"
proof (induction n rule: str_nat.induct)
  case (1 n)
  show ?case
  proof (cases "n < 10")
    case True
    then show ?thesis
      by (subst str_nat.simps) (simp add: digits_value_def code_digit_char)
  next
    case False
    then have "digits_value (str_nat (n div 10)) = n div 10"
      by (rule "1.IH")
    then show ?thesis
      using False
      by (subst str_nat.simps) (simp add: digits_value_snoc code_digit_char)
  qed
qed

lemma digits_value_zeros: "digits_value (replicate k (CHR ''0'') @ s) = digits_value s"
proof -
  have z: "code (CHR ''0'') - 48 = 0" by code_simp
  have "foldl (\<lambda>a c. 10 * a + (code c - 48)) 0 (replicate k (CHR ''0'')) = 0"
    by (induction k) (simp_all add: z)
  then show ?thesis
    by (simp add: digits_value_def)
qed

lemma inj_format_03d: "inj format_03d"
proof (rule injI)
  fix m n
  assume "format_03d m = format_03d n"
  then have "digits_value (format_03d m) = digits_value (format_03d n)"
    by simp
  then show "m = n"
    by (simp add: format_03d_def digits_value_zeros digits_value_str_nat)
qed

lemma distinct_sequential: "distinct (map (\<lambda>k. ''ID'' @ format_03d k) [1 ..< Suc n])"
proof -
  have "inj (\<lambda>k. ''ID'' @ format_03d k)"
    using inj_format_03d by (auto simp add: inj_def)
  then show ?thesis
    by (simp add: distinct_map inj_on_def inj_def del: upt_Suc)
qed

lemma inj_demo_uuid4: "inj demo_uuid4"
proof (rule injI)
  fix m n
  assume "demo_uuid4 m = demo_uuid4 n"
  then have "replicate (12 - length (str_nat m)) (CHR ''0'') @ str_nat m
           = replicate (12 - length (str_nat n)) (CHR ''0'') @ str_nat n"
    by (simp add: demo_uuid4_def)
  then have "digits_value (replicate (12 - length (str_nat m)) (CHR ''0'') @ str_nat m)
           = digits_value (replicate (12 - length (str_nat n)) (CHR ''0'') @ str_nat n)"
    by simp
  then show "m = n"
    by (simp add: digits_value_zeros digits_value_str_nat)
qed

lemma unique_loop_fresh:
  "fst (unique_loop e g rng name ex c) \<notin> ex \<or>
   fst (unique_loop e g rng name ex c) = fallback_token e rng"
proof (induction "1000 - c" arbitrary: c g)
  case 0
  then have "c + 1 > 1000" by simp
  then show ?case
    by (subst unique_loop.simps, subst (2) unique_loop.simps)
       (simp add: Let_def fallback_token_def)
next
  case (Suc d)
  then have lt: "\<not> c + 1 > 1000" by simp
  have ih: "fst (unique_loop e g' rng name ex (c + 1)) \<notin> ex \<or>
        fst (unique_loop e g' rng name ex (c + 1)) = fallback_token e rng" for g'
    by (rule Suc.hyps(1)) (use Suc.hyps(2) in simp)
  show ?case
    using lt ih
    by (subst unique_loop.simps, subst (2) unique_loop.simps) (simp add: Let_def)
qed

lemma generate_unique_hash_fresh:
  "fst (generate_unique_hash e g rng name ex) \<notin> ex \<or>
   fst (generate_unique_hash e g rng name ex) = fallback_token e rng"
  using unique_loop_fresh by (simp add: generate_unique_hash_def Let_def)

lemma repeats_are_tokens_Nil: "repeats_are_tokens e []"
  by (simp add: repeats_are_tokens_def)

lemma repeats_are_tokens_snoc:
  "repeats_are_tokens e ids \<Longrightarrow> v \<notin> set ids \<or> v \<in> range (fallback_token e) \<Longrightarrow>
   repeats_are_tokens e (ids @ [v])"
  unfolding repeats_are_tokens_def
proof (intro allI impI)
  fix j
  assume a: "\<forall>j<length ids. ids ! j \<in> set (take j ids) \<longrightarrow> ids ! j \<in> range (fallback_token e)"
    and v: "v \<notin> set ids \<or> v \<in> range (fallback_token e)"
    and j: "j < length (ids @ [v])"
    and m: "(ids @ [v]) ! j \<in> set (take j (ids @ [v]))"
  show "(ids @ [v]) ! j \<in> range (fallback_token e)"
  proof (cases "j < length ids")
    case True
    then show ?thesis using a m by (simp add: nth_append)
  next
    case False
    then have "j = length ids" using j by simp
    then show ?thesis using v m by (simp add: nth_append)
  qed
qed

lemma repeats_are_tokens_distinct:
  "repeats_are_tokens e ids \<Longrightarrow> \<forall>k. fallback_token e k \<notin> set ids \<Longrightarrow> distinct ids"
proof (induction ids rule: rev_induct)
  case Nil
  then show ?case by simp
next
  case (snoc v ids)
  have r: "repeats_are_tokens e ids"
    unfolding repeats_are_tokens_def
  proof (intro allI impI)
    fix j assume j: "j < length ids" and m: "ids ! j \<in> set (take j ids)"
    from snoc.prems(1) j m show "ids ! j \<in> range (fallback_token e)"
      unfolding repeats_are_tokens_def
      by (metis (no_types, lifting) butlast_snoc length_append_singleton less_SucI nth_butlast
          take_butlast)
  qed
  have d: "distinct ids"
    using snoc.IH [OF r] snoc.prems(2) by simp
  have "v \<notin> set ids"
  proof
    assume "v \<in> set ids"
    then have "(ids @ [v]) ! length ids \<in> set (take (length ids) (ids @ [v]))" by simp
    then have "(ids @ [v]) ! length ids \<in> range (fallback_token e)"
      using snoc.prems(1) unfolding repeats_are_tokens_def
      by (metis length_append_singleton lessI)
    then show False using snoc.prems(2) by auto
  qed
  with d show ?case by simp
qed

lemma mapping_loop_hash_repeats:
  "existing_ids = set (map ID mappings) \<Longrightarrow> repeats_are_tokens e (map ID mappings) \<Longrightarrow>
   repeats_are_tokens e (map ID (fst (mapping_loop e ''hash'' names mappings existing_ids g rng)))"
proof (induction names arbitrary: mappings existing_ids g rng)
  case Nil
  then show ?case by simp
next
  case (Cons name names)
  let ?r = "generate_unique_hash e g rng name existing_ids"
  let ?m = "mappings @ [\<lparr>Name = name, ID = fst ?r\<rparr>]"
  have f: "fst ?r \<notin> set (map ID mappings) \<or> fst ?r \<in> range (fallback_token e)"
    using generate_unique_hash_fresh [of e g rng name existing_ids] Cons.prems(1) by auto
  have 1: "insert (fst ?r) existing_ids = set (map ID ?m)"
    using Cons.prems(1) by simp
  have 2: "repeats_are_tokens e (map ID ?m)"
    using repeats_are_tokens_snoc [OF Cons.prems(2) f] by simp
  show ?case
    using Cons.IH [OF 1 2] by (simp add: Let_def)
qed

lemma mapping_loop_uuid:
  "map ID (fst (mapping_loop e ''uuid'' names mappings ex g rng))
     = map ID mappings @ map (uuid4 e) [rng ..< rng + length names]"
proof (induction names arbitrary: mappings ex rng)
  case Nil
  then show ?case by simp
next
  case (Cons a names)
  have "[rng ..< rng + length (a # names)] = rng # [rng + 1 ..< rng + 1 + length names]"
    by (simp add: upt_rec)
  then show ?case using Cons by (simp add: Let_def)
qed

lemma generate_ids_loop_uuid:
  "map ID (fst (generate_ids_loop e Uuid names i mappings g rng))
     = map ID mappings @ map (uuid4 e) [rng ..< rng + length names]"
proof (induction names arbitrary: mappings i rng)
  case Nil
  then show ?case by simp
next
  case (Cons a names)
  have "[rng ..< rng + length (a # names)] = rng # [rng + 1 ..< rng + 1 + length names]"
    by (simp add: upt_rec)
  then show ?case using Cons by (simp add: Let_def)
qed

lemma sequential_ids_mapping:
  "map ID (fst (create_name_id_mapping e g rng names ''sequential''))
     = map (\<lambda>k. ''ID'' @ format_03d k) [1 ..< Suc (length names)]"
proof -
  have l: "length [Suc 0 ..< Suc (length names)] = length names"
    by (simp del: upt_Suc)
  show ?thesis
    by (simp add: create_name_id_mapping_def mapping_loop_sequential map_ID_zip [OF l]
          del: map_map upt_Suc)
qed

lemma sequential_ids_loop:
  "map ID (fst (generate_ids_loop e Sequential names 0 [] g rng))
     = map (\<lambda>k. ''ID'' @ format_03d k) [1 ..< Suc (length names)]"
proof -
  have l: "length [Suc 0 ..< Suc (length names)] = length names"
    by (simp del: upt_Suc)
  show ?thesis
    by (simp add: generate_ids_loop_sequential map_ID_zip [OF l] del: map_map upt_Suc)
qed

lemma demo_token_long: "20 \<le> length (fallback_token demo_env k)"
proof -
  have p: "length (filter (\<lambda>c. c \<noteq> CHR ''-'') ''00000000-0000-4000-8000-'') = 20"
    by code_simp
  have u: "uuid4 demo_env k = ''00000000-0000-4000-8000-'' @
             (replicate (12 - length (str_nat k)) (CHR ''0'') @ str_nat k)"
    by (simp add: demo_env_def demo_uuid4_def)
  show ?thesis
    by (simp only: fallback_token_def u filter_append length_append p le_add1)
qed

lemma demo_hash_ids:
  "map ID (fst (create_name_id_mapping demo_env (init_default demo_env) 0
       [''Ann'', ''Ann'', ''Bob''] ''hash''))
     = [''5616e6e'', ''5616e6e5f31'', ''5626f62'']"
  by code_simp

text \<open>
  C1, as the specification states it, fails for the hash method of the application:
  its generation loop gives every record the generator's hash of the record's name, so
  the two records of a name that occurs twice share one identifier.
\<close>

theorem shared_identifier_counterexample:
  "map ID (name_id_mappings (fst (snd (step_2_generate_ids demo_env (init_default demo_env) 0 Hash
       ''md5'' [''Ann'', ''Ann''] \<lparr>step = 2, name_id_mappings = []\<rparr>))))
     = [''5616e6e'', ''5616e6e'']"
  by code_simp

text \<open>The same holds for every library, generator state and algorithm.\<close>

lemma shared_identifier_any_library:
  "\<not> distinct (map ID (name_id_mappings (fst (snd
       (step_2_generate_ids e g rng Hash alg [''Ann'', ''Ann''] st)))))"
  by (simp add: step_2_generate_ids_def generate_ids_loop_hash generate_hash_again Let_def)

text \<open>
  C1, amended. Within one run the identifiers are pairwise distinct under the
  sequential strategy, in \<open>create_name_id_mapping\<close> and in the loop of the application.
  Under the hash strategy of \<open>create_name_id_mapping\<close> an identifier that repeats an
  earlier one of the run can only be a fallback token, so the identifiers are pairwise
  distinct whenever none of them is a fallback token. Under the random strategy the
  identifiers are the UUIDs drawn from the random source, in the order drawn, and so are
  pairwise distinct when the source never returns a UUID twice. In the loop of the
  application the hash strategy gives each record the generator's hash of its name:
  records with equal names share their identifier.
\<close>

theorem identifier_uniqueness:
  "distinct (map ID (fst (create_name_id_mapping e g rng names ''sequential''))) \<and>
   distinct (map ID (fst (generate_ids_loop e Sequential names 0 [] g rng))) \<and>
   repeats_are_tokens e (map ID (fst (create_name_id_mapping e g rng names ''hash''))) \<and>
   ((\<forall>k. fallback_token e k \<notin> set (map ID (fst (create_name_id_mapping e g rng names ''hash'')))) \<longrightarrow>
      distinct (map ID (fst (create_name_id_mapping e g rng names ''hash'')))) \<and>
   map ID (fst (create_name_id_mapping e g rng names ''uuid''))
     = map (uuid4 e) [rng ..< rng + length names] \<and>
   map ID (fst (generate_ids_loop e Uuid names 0 [] g rng))
     = map (uuid4 e) [rng ..< rng + length names] \<and>
   (inj (uuid4 e) \<longrightarrow>
      distinct (map ID (fst (create_name_id_mapping e g rng names ''uuid''))) \<and>
      distinct (map ID (fst (generate_ids_loop e Uuid names 0 [] g rng)))) \<and>
   map ID (fst (generate_ids_loop e Hash names 0 [] g rng))
     = map (\<lambda>n. fst (generate_hash e g n)) names"
proof -
  have 1: "distinct (map ID (fst (create_name_id_mapping e g rng names ''sequential'')))"
    by (simp only: sequential_ids_mapping distinct_sequential)
  have 2: "distinct (map ID (fst (generate_ids_loop e Sequential names 0 [] g rng)))"
    by (simp only: sequential_ids_loop distinct_sequential)
  have 3: "repeats_are_tokens e (map ID (fst (create_name_id_mapping e g rng names ''hash'')))"
    unfolding create_name_id_mapping_def
    by (rule mapping_loop_hash_repeats) (simp_all add: repeats_are_tokens_Nil)
  have 4: "distinct (map ID (fst (create_name_id_mapping e g rng names ''hash'')))"
    if "\<forall>k. fallback_token e k \<notin> set (map ID (fst (create_name_id_mapping e g rng names ''hash'')))"
    using 3 that by (rule repeats_are_tokens_distinct)
  have 5: "map ID (fst (create_name_id_mapping e g rng names ''uuid''))
     = map (uuid4 e) [rng ..< rng + length names]"
    by (simp add: create_name_id_mapping_def mapping_loop_uuid)
  have 6: "map ID (fst (generate_ids_loop e Uuid names 0 [] g rng))
     = map (uuid4 e) [rng ..< rng + length names]"
    by (simp add: generate_ids_loop_uuid)
  have 7: "distinct (map (uuid4 e) [rng ..< rng + length names])" if "inj (uuid4 e)"
    using that by (simp add: distinct_map inj_on_def inj_def)
  have 8: "map ID (fst (generate_ids_loop e Hash names 0 [] g rng))
     = map (\<lambda>n. fst (generate_hash e g n)) names"
    by (simp add: generate_ids_loop_hash comp_def)
  from 1 2 3 4 5 6 7 8 show ?thesis by (simp only:) blast
qed

theorem identifier_uniqueness_witness:
  "distinct (map ID (fst (create_name_id_mapping demo_env (init_default demo_env) 0
       [''Ann'', ''Ann'', ''Bob''] ''hash''))) \<and>
   distinct (map ID (fst (create_name_id_mapping demo_env (init_default demo_env) 0
       [''Ann'', ''Ann'', ''Bob''] ''uuid''))) \<and>
   distinct (map ID (fst (create_name_id_mapping demo_env (init_default demo_env) 0
       [''Ann'', ''Ann'', ''Bob''] ''sequential'')))"
proof -
  let ?g = "init_default demo_env"
  let ?names = "[''Ann'', ''Ann'', ''Bob'']"
  have t: "\<forall>k. fallback_token demo_env k \<notin> set (map ID (fst (create_name_id_mapping demo_env ?g 0 ?names ''hash'')))"
  proof
    fix k
    have "length x < 20" if "x \<in> set [''5616e6e'', ''5616e6e5f31'', ''5626f62'']" for x
      using that by auto
    then show "fallback_token demo_env k \<notin> set (map ID (fst (create_name_id_mapping demo_env ?g 0 ?names ''hash'')))"
      unfolding demo_hash_ids using demo_token_long [of k] by fastforce
  qed
  have i: "inj (uuid4 demo_env)"
    using inj_demo_uuid4 by (simp add: demo_env_def)
  from identifier_uniqueness [of demo_env ?g 0 ?names] t i
  show ?thesis by blast
qed

section \<open>Cleaning a cleaned name\<close>

lemma hd_sub_spaces: "s \<noteq> [] \<Longrightarrow> \<not> is_space (hd s) \<Longrightarrow> hd (sub_spaces s) = hd s"
  by (cases s) simp_all

lemma sub_spaces_Nil_iff: "sub_spaces s = [] \<longleftrightarrow> s = []"
  by (cases s) simp_all

lemma single_spaced_sub_spaces: "single_spaced (sub_spaces s)"
proof (induction s rule: sub_spaces.induct)
  case 1
  then show ?case by simp
next
  case (2 c cs)
  show ?case
  proof (cases "is_space c")
    case True
    let ?t = "dropWhile is_space cs"
    have sp: "is_space (CHR '' '')" by code_simp
    have "sub_spaces ?t = [] \<or> \<not> is_space (hd (sub_spaces ?t))"
    proof (cases "?t = []")
      case True
      then show ?thesis by (simp only: sub_spaces.simps) simp
    next
      case False
      then have n: "\<not> is_space (hd ?t)" by (rule hd_dropWhile)
      have "hd (sub_spaces ?t) = hd ?t" using False n by (rule hd_sub_spaces)
      with n show ?thesis by (simp only:) simp
    qed
    then show ?thesis
      using True 2 sp by simp
  next
    case False
    then show ?thesis using 2 by simp
  qed
qed

lemma sub_spaces_fixed: "single_spaced s \<Longrightarrow> sub_spaces s = s"
proof (induction s rule: sub_spaces.induct)
  case 1
  then show ?case by simp
next
  case (2 c cs)
  show ?case
  proof (cases "is_space c")
    case True
    then have c: "c = CHR '' ''" and h: "cs = [] \<or> \<not> is_space (hd cs)" and s: "single_spaced cs"
      using "2.prems" by simp_all
    have d: "dropWhile is_space cs = cs"
      using h by (cases cs) simp_all
    have "sub_spaces (dropWhile is_space cs) = dropWhile is_space cs"
      using "2.IH"(1) [OF True] s d by simp
    then show ?thesis
      using True c d by simp
  next
    case False
    then show ?thesis using 2 by simp
  qed
qed

lemma single_spaced_space: "single_spaced s \<Longrightarrow> c \<in> set s \<Longrightarrow> is_space c \<Longrightarrow> c = CHR '' ''"
  by (induction s) (auto split: if_splits)

lemma single_spaced_dropWhile: "single_spaced s \<Longrightarrow> single_spaced (dropWhile P s)"
  by (induction s) (auto split: if_splits)

lemma single_spaced_prefix: "single_spaced (a @ b) \<Longrightarrow> single_spaced a"
proof (induction a)
  case Nil
  then show ?case by simp
next
  case (Cons c a)
  then show ?case by (cases a) (auto split: if_splits)
qed

lemma rstrip_punct_prefix: "s = rstrip_punct s @ rev (takeWhile is_punct (rev s))"
proof -
  have "s = rev (rev s)" by simp
  also have "\<dots> = rev (takeWhile is_punct (rev s) @ dropWhile is_punct (rev s))"
    by (simp only: takeWhile_dropWhile_id)
  also have "\<dots> = rev (dropWhile is_punct (rev s)) @ rev (takeWhile is_punct (rev s))"
    by (rule rev_append)
  finally show ?thesis
    by (simp only: rstrip_punct_def)
qed

lemma single_spaced_rstrip: "single_spaced s \<Longrightarrow> single_spaced (rstrip_punct s)"
  using single_spaced_prefix rstrip_punct_prefix by metis

lemma not_alpha_fixed: "\<not> is_alpha c \<Longrightarrow> to_upper c = c \<and> to_lower c = c"
  by (simp add: is_alpha_def to_upper_def to_lower_def)

lemma alpha_not_space_punct: "is_alpha c \<Longrightarrow> \<not> is_space c \<and> \<not> is_punct c"
  by (auto simp add: is_alpha_def is_punct_def is_word_def is_space_def is_upper_def is_lower_def)

lemma title_char_class:
  "is_space (if b then to_lower c else to_upper c) = is_space c \<and>
   is_punct (if b then to_lower c else to_upper c) = is_punct c \<and>
   (is_space c \<longrightarrow> (if b then to_lower c else to_upper c) = c)"
proof (cases "is_alpha c")
  case True
  then have "is_alpha (if b then to_lower c else to_upper c)"
    by (simp add: is_alpha_to_lower is_alpha_to_upper)
  then show ?thesis
    using True alpha_not_space_punct by blast
next
  case False
  then show ?thesis
    using not_alpha_fixed [of c] by simp
qed

lemma title_from_Nil_iff: "title_from b p = [] \<longleftrightarrow> p = []"
  by (cases p) simp_all

lemma hd_title_from:
  "p \<noteq> [] \<Longrightarrow> hd (title_from b p) = (if b then to_lower (hd p) else to_upper (hd p))"
  by (cases p) simp_all

lemma last_title_from:
  "p \<noteq> [] \<Longrightarrow> \<exists>b'. last (title_from b p) = (if b' then to_lower (last p) else to_upper (last p))"
proof (induction p arbitrary: b)
  case Nil
  then show ?case by simp
next
  case (Cons c p)
  show ?case
  proof (cases "p = []")
    case True
    then show ?thesis by auto
  next
    case False
    then obtain b' where
      "last (title_from (is_alpha c) p) = (if b' then to_lower (last p) else to_upper (last p))"
      using Cons.IH by blast
    then show ?thesis
      using False by (auto simp add: title_from_Nil_iff)
  qed
qed

lemma single_spaced_title_from: "single_spaced p \<Longrightarrow> single_spaced (title_from b p)"
proof (induction p arbitrary: b)
  case Nil
  then show ?case by simp
next
  case (Cons c p)
  have s: "single_spaced (title_from (is_alpha c) p)"
    using Cons by simp
  have h: "title_from (is_alpha c) p = [] \<or> \<not> is_space (hd (title_from (is_alpha c) p))"
    if "is_space c"
  proof (cases "p = []")
    case True
    then show ?thesis by simp
  next
    case False
    then have "\<not> is_space (hd p)"
      using Cons.prems that by simp
    then show ?thesis
      using False title_char_class [of "is_alpha c" "hd p"] by (simp add: hd_title_from)
  qed
  show ?case
    using Cons.prems s h title_char_class [of b c] by auto
qed

lemma to_upper_to_upper: "to_upper (to_upper c) = to_upper c"
  using is_lower_to_upper [of c] by (simp add: to_upper_def)

lemma title_from_idem: "title_from b (title_from b p) = title_from b p"
  by (induction p arbitrary: b)
     (simp_all add: to_upper_to_upper to_lower_to_lower is_alpha_to_lower is_alpha_to_upper)

lemma newline_space: "is_space (CHR 0x0A)" "CHR 0x0A \<noteq> CHR '' ''"
  by code_simp+

lemma single_spaced_last: "single_spaced s \<Longrightarrow> s \<noteq> [] \<Longrightarrow> last s \<noteq> CHR 0x0A"
  using single_spaced_space [of s "CHR 0x0A"] newline_space by (metis last_in_set)

lemma sub_outer_punct_single_spaced:
  "single_spaced s \<Longrightarrow> sub_outer_punct s = rstrip_punct (dropWhile is_punct s)"
  using single_spaced_last [OF single_spaced_dropWhile, of s is_punct]
  by (auto simp add: sub_outer_punct_def Let_def)

lemma rstrip_punct_last: "rstrip_punct s \<noteq> [] \<Longrightarrow> \<not> is_punct (last (rstrip_punct s))"
proof -
  assume n: "rstrip_punct s \<noteq> []"
  then have d: "dropWhile is_punct (rev s) \<noteq> []"
    by (simp add: rstrip_punct_def)
  then have "\<not> is_punct (hd (dropWhile is_punct (rev s)))"
    by (rule hd_dropWhile)
  then show ?thesis
    using d by (simp add: rstrip_punct_def last_rev)
qed

lemma rstrip_punct_hd: "rstrip_punct s \<noteq> [] \<Longrightarrow> hd (rstrip_punct s) = hd s"
  using rstrip_punct_prefix [of s] by (metis hd_append2)

lemma rstrip_punct_fixed: "s \<noteq> [] \<Longrightarrow> \<not> is_punct (last s) \<Longrightarrow> rstrip_punct s = s"
proof -
  assume "s \<noteq> []" "\<not> is_punct (last s)"
  then have "dropWhile is_punct (rev s) = rev s"
    by (cases "rev s") (simp_all add: last_rev [symmetric] hd_rev)
  then show ?thesis
    by (simp add: rstrip_punct_def)
qed

lemma clean_name_shape:
  "x \<noteq> [] \<Longrightarrow>
   clean_name x = title_from False (rstrip_punct (dropWhile is_punct (sub_spaces (strip x))))"
  by (simp add: clean_name_def title_def sub_outer_punct_single_spaced single_spaced_sub_spaces)

text \<open>
  Cleaning is idempotent on every name of ASCII characters whose cleaned form has no
  whitespace at either end: the leading or trailing space that the removal of outer
  punctuation can leave behind is the only way in which cleaning a cleaned name changes
  it.
\<close>

theorem clean_name_idempotent_when_stripped:
  "ascii x \<Longrightarrow> strip (clean_name x) = clean_name x \<Longrightarrow>
   clean_name (clean_name x) = clean_name x"
proof -
  assume st: "strip (clean_name x) = clean_name x"
  show ?thesis
  proof (cases "x = [] \<or> clean_name x = []")
    case True
    then show ?thesis by (auto simp add: clean_name_def)
  next
    case False
    let ?s1 = "dropWhile is_punct (sub_spaces (strip x))"
    let ?p = "rstrip_punct ?s1"
    let ?r = "title_from False ?p"
    have r: "clean_name x = ?r"
      using False by (simp add: clean_name_shape)
    have rn: "?r \<noteq> []" using False r by simp
    then have pn: "?p \<noteq> []" by (simp add: title_from_Nil_iff)
    have s1n: "?s1 \<noteq> []"
    proof
      assume "?s1 = []"
      then have "?p = []" by (simp only: rstrip_punct_def rev.simps dropWhile.simps)
      with pn show False by (simp only:) simp
    qed
    have sp: "single_spaced ?p"
      by (intro single_spaced_rstrip single_spaced_dropWhile single_spaced_sub_spaces)
    have sr: "single_spaced ?r"
      using sp by (rule single_spaced_title_from)
    have "\<not> is_punct (hd ?s1)"
      using s1n by (rule hd_dropWhile)
    then have "\<not> is_punct (hd ?p)"
      using rstrip_punct_hd [OF pn] by simp
    then have hd: "\<not> is_punct (hd ?r)"
      using title_char_class [of False "hd ?p"] pn by (simp add: hd_title_from)
    have "\<not> is_punct (last ?p)"
      using pn by (rule rstrip_punct_last)
    moreover obtain b' where "last ?r = (if b' then to_lower (last ?p) else to_upper (last ?p))"
      using last_title_from [OF pn] by blast
    ultimately have last: "\<not> is_punct (last ?r)"
      using title_char_class [of b' "last ?p"] by simp
    have d: "dropWhile is_punct ?r = ?r"
      using rn hd by (cases ?r) simp_all
    have e1: "strip ?r = ?r" using st r by (simp only:)
    have e2: "sub_spaces ?r = ?r" using sr by (rule sub_spaces_fixed)
    have e4: "rstrip_punct ?r = ?r" using rn last by (rule rstrip_punct_fixed)
    have e5: "title_from False ?r = ?r" by (rule title_from_idem)
    have "clean_name ?r = title_from False (rstrip_punct (dropWhile is_punct (sub_spaces (strip ?r))))"
      using rn by (rule clean_name_shape)
    then have "clean_name ?r = ?r"
      by (simp only: e1 e2 d e4 e5)
    then show ?thesis by (simp only: r)
  qed
qed

theorem clean_name_idempotent_when_stripped_witness:
  "ascii ''  john   doe  '' \<and> strip (clean_name ''  john   doe  '') = clean_name ''  john   doe  '' \<and>
   clean_name (clean_name ''  john   doe  '') = clean_name ''  john   doe  ''"
proof -
  have a: "ascii ''  john   doe  ''" by code_simp
  have b: "strip (clean_name ''  john   doe  '') = clean_name ''  john   doe  ''" by code_simp
  from clean_name_idempotent_when_stripped [OF a b] a b show ?thesis by simp
qed

section \<open>Further properties of generation\<close>

text \<open>
  \<open>generate_sequential_ids\<close> returns a dictionary keyed by name: a name that occurs twice
  has one entry, with the identifier of its last occurrence.
\<close>

theorem sequential_ids_keyed_by_name:
  "generate_sequential_ids [''Ann'', ''Ann'', ''Bob''] ''ID'' = [(''Ann'', ''ID002''), (''Bob'', ''ID003'')]"
  by code_simp

lemma generate_ids_loop_names:
  "map Name (fst (generate_ids_loop e t names i mappings g rng)) = map Name mappings @ names"
  by (induction names arbitrary: mappings i g rng) (simp_all add: Let_def)

text \<open>
  The records of a run carry the names of the input in their order, one record for each
  name, whatever the strategy: in \<open>create_name_id_mapping\<close> and in the loop of the
  application.
\<close>

theorem records_follow_input_order:
  "map Name (fst (create_name_id_mapping e g rng names t)) = names \<and>
   length (fst (create_name_id_mapping e g rng names t)) = length names \<and>
   map Name (fst (generate_ids_loop e m names 0 [] g rng)) = names \<and>
   length (fst (generate_ids_loop e m names 0 [] g rng)) = length names"
proof -
  have 1: "map Name (fst (create_name_id_mapping e g rng names t)) = names"
    by (simp add: create_name_id_mapping_def mapping_loop_names)
  have 2: "map Name (fst (generate_ids_loop e m names 0 [] g rng)) = names"
    by (simp add: generate_ids_loop_names)
  have 3: "length (fst (create_name_id_mapping e g rng names t)) = length names"
    using arg_cong [OF 1, of length] by (simp only: length_map)
  have 4: "length (fst (generate_ids_loop e m names 0 [] g rng)) = length names"
    using arg_cong [OF 2, of length] by (simp only: length_map)
  from 1 2 3 4 show ?thesis by (simp only:)
qed

theorem records_follow_input_order_witness:
  "map Name (fst (create_name_id_mapping demo_env (init_default demo_env) 0 [''Bob'', ''Ann'', ''Bob''] ''hash''))
     = [''Bob'', ''Ann'', ''Bob'']"
  using records_follow_input_order [of demo_env "init_default demo_env" 0 "[''Bob'', ''Ann'', ''Bob'']" "''hash''"]
  by (rule conjunct1)

lemma mapping_loop_default:
  "t \<noteq> ''sequential'' \<Longrightarrow> t \<noteq> ''uuid'' \<Longrightarrow>
   mapping_loop e t names mappings ex g rng = mapping_loop e ''hash'' names mappings ex g rng"
proof (induction names arbitrary: mappings ex g rng)
  case Nil
  then show ?case by simp
next
  case (Cons a names)
  have "mapping_loop e t (a # names) mappings ex g rng
        = mapping_loop e t names
            (mappings @ [\<lparr>Name = a, ID = fst (generate_unique_hash e g rng a ex)\<rparr>])
            (insert (fst (generate_unique_hash e g rng a ex)) ex)
            (fst (snd (generate_unique_hash e g rng a ex)))
            (snd (snd (generate_unique_hash e g rng a ex)))"
    using Cons.prems by (simp add: Let_def)
  also have "\<dots> = mapping_loop e ''hash'' names
            (mappings @ [\<lparr>Name = a, ID = fst (generate_unique_hash e g rng a ex)\<rparr>])
            (insert (fst (generate_unique_hash e g rng a ex)) ex)
            (fst (snd (generate_unique_hash e g rng a ex)))
            (snd (snd (generate_unique_hash e g rng a ex)))"
    using Cons.prems by (rule Cons.IH)
  also have "\<dots> = mapping_loop e ''hash'' (a # names) mappings ex g rng"
    by (simp add: Let_def)
  finally show ?case .
qed

text \<open>
  An identifier type other than \<^verbatim>\<open>hash\<close>, \<^verbatim>\<open>sequential\<close> and \<^verbatim>\<open>uuid\<close> is treated by
  \<open>create_name_id_mapping\<close> as \<^verbatim>\<open>hash\<close>.
\<close>

theorem unknown_strategy_is_hash:
  "t \<noteq> ''hash'' \<Longrightarrow> t \<noteq> ''sequential'' \<Longrightarrow> t \<noteq> ''uuid'' \<Longrightarrow>
   create_name_id_mapping e g rng names t = create_name_id_mapping e g rng names ''hash''"
  unfolding create_name_id_mapping_def by (rule mapping_loop_default)

theorem unknown_strategy_is_hash_witness:
  "create_name_id_mapping demo_env (init_default demo_env) 0 [''Ann''] ''md5''
     = create_name_id_mapping demo_env (init_default demo_env) 0 [''Ann''] ''hash''"
proof -
  have 1: "''md5'' \<noteq> ''hash''" by simp
  have 2: "''md5'' \<noteq> ''sequential''" by simp
  have 3: "''md5'' \<noteq> ''uuid''" by simp
  show ?thesis
    using 1 2 3 by (rule unknown_strategy_is_hash)
qed

end
